theory Spec2Isabelle
  imports Main "HOL-Library.Sublist" "HOL-Library.Char_ord" "HOL-Library.List_Lexorder"
begin

section \<open>Strings and the regular expressions of the redaction pipeline\<close>

text \<open>
  A JavaScript string is a sequence of UTF-16 code units, numbers from 0 to 65535. The
  regular expressions of the source have no \<open>u\<close> flag, so they work on single code units,
  as do \<open>split\<close>, \<open>replace\<close> and the comparison of strings. A text is modelled as the list
  of its code units, and a code unit as a natural number.
\<close>

type_synonym codeUnit = nat

type_synonym jsString = "codeUnit list"

definition units :: "string \<Rightarrow> jsString" where
  \<comment> \<open>the code units of a literal written with ASCII characters\<close>
  "units s = map of_char s"

definition isWordChar :: "codeUnit \<Rightarrow> bool" where
  \<comment> \<open>the class \<open>\w\<close>, that is \<open>[A-Za-z0-9_]\<close>; \<open>\W\<close> is its complement\<close>
  "isWordChar n =
     ((65 \<le> n \<and> n \<le> 90) \<or> (97 \<le> n \<and> n \<le> 122) \<or> (48 \<le> n \<and> n \<le> 57) \<or> n = 95)"

definition isWhitespace :: "codeUnit \<Rightarrow> bool" where
  \<comment> \<open>the class \<open>[\s\n]\<close>, the white space and line terminators of the language: tab, line
      feed, vertical tab, form feed, carriage return, space, no-break space, U+1680,
      U+2000 to U+200A, the line and paragraph separators U+2028 and U+2029, U+202F,
      U+205F, U+3000 and the byte order mark U+FEFF\<close>
  "isWhitespace n =
     ((9 \<le> n \<and> n \<le> 13) \<or> n = 32 \<or> n = 160 \<or> n = 0x1680 \<or> (0x2000 \<le> n \<and> n \<le> 0x200A)
      \<or> n = 0x2028 \<or> n = 0x2029 \<or> n = 0x202F \<or> n = 0x205F \<or> n = 0x3000 \<or> n = 0xFEFF)"

definition toLowerLatin1 :: "codeUnit \<Rightarrow> codeUnit" where
  \<comment> \<open>the lower-case form of a code unit below 256: \<open>A-Z\<close> and the Latin-1 capitals (all
      of 192 to 222 but the multiplication sign 215) move up by 32, every other one stays\<close>
  "toLowerLatin1 n =
     (if (65 \<le> n \<and> n \<le> 90) \<or> (192 \<le> n \<and> n \<le> 222 \<and> n \<noteq> 215) then n + 32 else n)"

definition latin1 :: "jsString \<Rightarrow> bool" where
  \<comment> \<open>a text of ASCII and Latin-1 characters: all its code units are below 256\<close>
  "latin1 s = list_all (\<lambda>n. n < 256) s"

definition lowerLatin1 :: "jsString \<Rightarrow> jsString" where
  \<comment> \<open>the case conversion of a text of code units below 256: each code unit alone\<close>
  "lowerLatin1 s = map toLowerLatin1 s"

definition toLowerCase :: "(jsString \<Rightarrow> jsString) \<Rightarrow> jsString \<Rightarrow> jsString" where
  \<comment> \<open>\<open>String.prototype.toLowerCase\<close>, the default case conversion of Unicode, whose tables
      are not among the sources. On a text of code units below 256 it converts each code
      unit alone, as \<open>lowerLatin1\<close> does. On every other text its result is that of the
      argument \<open>unicodeLower\<close>, which stands for the conversion of the platform there: it may
      change the length of a text (U+0130 becomes \<open>i\<close> and U+0307) and may turn a code unit
      that \<open>\W\<close> matches into a word character (U+212A, the Kelvin sign, becomes \<open>k\<close>).\<close>
  "toLowerCase unicodeLower s = (if latin1 s then lowerLatin1 s else unicodeLower s)"

definition kelvinLower :: "jsString \<Rightarrow> jsString" where
  \<comment> \<open>the case conversion on the texts whose code units are below 256 or the Kelvin sign
      U+212A: each code unit is converted alone, the Kelvin sign to \<open>k\<close>. It is the
      \<open>unicodeLower\<close> of the examples below, which are texts of that kind.\<close>
  "kelvinLower s = map (\<lambda>n. if n = 0x212A then 0x6B else toLowerLatin1 n) s"

definition stripNonWord :: "jsString \<Rightarrow> jsString" where
  \<comment> \<open>\<open>c.replace(/\W+/g, "")\<close>: every run of non-word characters is deleted\<close>
  "stripNonWord s = filter isWordChar s"

fun replaceFirst :: "jsString \<Rightarrow> jsString \<Rightarrow> jsString \<Rightarrow> jsString" where
  \<comment> \<open>\<open>s.replace(pat, rep)\<close> with a string pattern and a replacement free of \<open>$\<close>: the first
      occurrence of \<open>pat\<close> is replaced, and \<open>s\<close> is returned as it is when there is none\<close>
  "replaceFirst pat rep [] = (if pat = [] then rep else [])"
| "replaceFirst pat rep (c # cs) =
     (if prefix pat (c # cs) then rep @ drop (length pat) (c # cs)
      else c # replaceFirst pat rep cs)"

definition substring :: "jsString \<Rightarrow> nat \<Rightarrow> nat \<Rightarrow> jsString" where
  \<comment> \<open>the code units from position \<open>p\<close> up to, not including, position \<open>q\<close>\<close>
  "substring S p q = take (q - p) (drop p S)"

definition matchAt :: "jsString \<Rightarrow> nat \<Rightarrow> bool" where
  \<comment> \<open>the lookahead \<open>(?=\W+)\<close> tried at position \<open>q\<close> alone: it succeeds, with an empty
      match, when a non-word character stands at \<open>q\<close>\<close>
  "matchAt S q = (q < length S \<and> \<not> isWordChar (S ! q))"

function splitLoop :: "jsString \<Rightarrow> nat \<Rightarrow> nat \<Rightarrow> jsString list" where
  \<comment> \<open>the loop of \<open>String.prototype.split\<close> for a regular expression: \<open>p\<close> is the start
      of the current piece, \<open>q\<close> the position where a match is tried. A match here is
      empty, so it ends at \<open>q\<close>: when that is \<open>p\<close> the loop moves on by one, otherwise
      the piece from \<open>p\<close> to \<open>q\<close> is emitted and both \<open>p\<close> and \<open>q\<close> become the end of
      the match. The last piece runs to the end of the text.\<close>
  "splitLoop S p q =
     (if q < length S
      then (if matchAt S q
            then (if q = p then splitLoop S p (q + 1)
                  else substring S p q # splitLoop S q q)
            else splitLoop S p (q + 1))
      else [substring S p (length S)])"
  by pat_completeness auto
termination
  by (relation "measure (\<lambda>(S, p, q). 2 * (length S - q) + (if p = q then 0 else 1))") auto

declare splitLoop.simps [simp del]

definition split_lodash :: "jsString \<Rightarrow> jsString list" where
  \<comment> \<open>\<open>_.split(text, /(?=\W+)/g)\<close>, which is \<open>text.split(/(?=\W+)/g)\<close>: the empty text
      gives no piece when the expression matches it and the text itself otherwise, any
      other text goes through the loop from position 0\<close>
  "split_lodash S = (if S = [] then (if matchAt S 0 then [] else [S]) else splitLoop S 0 0)"

fun splitAux :: "jsString \<Rightarrow> jsString \<Rightarrow> jsString list" where
  \<comment> \<open>the same cut by recursion over the text, for the proofs (\<open>split_lodash_splitAux\<close>): the
      first argument is the piece being read, the second the rest of the text; the text is
      cut in front of every non-word character but the one at position 0\<close>
  "splitAux cur [] = [cur]"
| "splitAux cur (c # cs) =
     (if \<not> isWordChar c \<and> cur \<noteq> [] then cur # splitAux [c] cs
      else splitAux (cur @ [c]) cs)"

definition maskText :: jsString where
  \<comment> \<open>\<open>_.repeat("_", 4)\<close>; 95 is the underscore\<close>
  "maskText = replicate 4 95"

definition maskToken :: "(jsString \<Rightarrow> jsString) \<Rightarrow> jsString set \<Rightarrow> jsString \<Rightarrow> jsString" where
  \<comment> \<open>the function mapped over the pieces\<close>
  "maskToken unicodeLower bannedWordSet c =
     (let clean = toLowerCase unicodeLower (stripNonWord c)
      in if clean \<in> bannedWordSet
         then replaceFirst clean maskText (toLowerCase unicodeLower c) else c)"

definition normalizeWhitespace :: "jsString \<Rightarrow> jsString" where
  \<comment> \<open>\<open>.replace(/[\s\n]/g, " ")\<close>: each whitespace character alone becomes one space (32)\<close>
  "normalizeWhitespace s = map (\<lambda>c. if isWhitespace c then 32 else c) s"

definition redactFlavor :: "(jsString \<Rightarrow> jsString) \<Rightarrow> jsString set \<Rightarrow> jsString \<Rightarrow> jsString" where
  \<comment> \<open>split, mask each piece, join, normalize\<close>
  "redactFlavor unicodeLower bannedWordSet text =
     normalizeWhitespace
       (concat (map (maskToken unicodeLower bannedWordSet) (split_lodash text)))"

definition laterPiece :: "jsString \<Rightarrow> bool" where
  \<comment> \<open>a piece that is not the first of its text: a non-word character, then word
      characters only\<close>
  "laterPiece c = (c \<noteq> [] \<and> \<not> isWordChar (hd c) \<and> list_all isWordChar (tl c))"

definition firstPiece :: "jsString \<Rightarrow> bool" where
  \<comment> \<open>the first piece of a text that is not empty: any character, then word characters only\<close>
  "firstPiece c = (c \<noteq> [] \<and> list_all isWordChar (tl c))"

definition redactPiece :: "(jsString \<Rightarrow> jsString) \<Rightarrow> jsString set \<Rightarrow> jsString \<Rightarrow> jsString" where
  \<comment> \<open>what becomes of one piece in the redacted text\<close>
  "redactPiece unicodeLower B c = normalizeWhitespace (maskToken unicodeLower B c)"

fun hasWhitespaceRun :: "jsString \<Rightarrow> bool" where
  \<comment> \<open>two whitespace characters side by side\<close>
  "hasWhitespaceRun (a # b # cs) =
     ((isWhitespace a \<and> isWhitespace b) \<or> hasWhitespaceRun (b # cs))"
| "hasWhitespaceRun cs = False"


section \<open>Generations and their id ranges\<close>

datatype error = TypeError | FetchFailed

record gameGeneration =
  shortGame :: string
  game :: string
  maxDex :: nat

definition numeralLookup :: "string list" where
  "numeralLookup =
     [''I'', ''II'', ''III'', ''IV'', ''V'', ''VI'', ''VII'', ''VIII'', ''IX'', ''X'']"

definition gameGenerations :: "gameGeneration list" where
  "gameGenerations =
     [\<lparr>shortGame = ''R & B'', game = ''Red and Blue'', maxDex = 151\<rparr>,
      \<lparr>shortGame = ''G & S'', game = ''Gold and Silver'', maxDex = 251\<rparr>,
      \<lparr>shortGame = ''R & S'', game = ''Ruby and Sapphire'', maxDex = 386\<rparr>,
      \<lparr>shortGame = ''D & P'', game = ''Diamond and Pearl'', maxDex = 493\<rparr>,
      \<lparr>shortGame = ''B & W'', game = ''Black and White'', maxDex = 649\<rparr>,
      \<lparr>shortGame = ''X & Y'', game = ''X and Y'', maxDex = 721\<rparr>,
      \<lparr>shortGame = ''S & M'', game = ''Sun and Moon'', maxDex = 809\<rparr>,
      \<lparr>shortGame = ''S & S'', game = ''Sword and Shield'', maxDex = 905\<rparr>,
      \<lparr>shortGame = ''S & V'', game = ''Scarlet and Violet'', maxDex = 1025\<rparr>]"

record generationInfo = gameGeneration +
  generation :: "string option"
  startId :: nat
  endId :: nat
  availableIds :: "nat list"

definition lookup :: "'a list \<Rightarrow> nat \<Rightarrow> 'a option" where
  \<comment> \<open>reading an array at an index: \<open>undefined\<close> beyond its end\<close>
  "lookup xs i = (if i < length xs then Some (xs ! i) else None)"

definition range_lodash :: "nat \<Rightarrow> nat \<Rightarrow> nat list" where
  \<comment> \<open>\<open>_.range(start, end)\<close> without a step: upwards by 1 when \<open>start < end\<close>, downwards
      by 1 otherwise, \<open>end\<close> excluded\<close>
  "range_lodash start end = (if start < end then [start..<end] else rev [Suc end..<Suc start])"

definition expandGeneration :: "nat \<Rightarrow> error + generationInfo" where
  \<comment> \<open>the function mapped over \<open>settings.includedGenerations\<close>. Indices are array positions,
      hence naturals: at index 0 the source reads \<open>gameGenerations[-1]\<close>, which is
      \<open>undefined\<close>. Reading \<open>curr.maxDex\<close> of an \<open>undefined\<close> \<open>curr\<close> throws.\<close>
  "expandGeneration genIdx =
     (let prev = (if genIdx = 0 then None else lookup gameGenerations (genIdx - 1));
          curr = lookup gameGenerations genIdx
      in case curr of
           None \<Rightarrow> Inl TypeError
         | Some c \<Rightarrow>
             (let startId = (case prev of None \<Rightarrow> 0 | Some p \<Rightarrow> maxDex p) + 1;
                  endId = maxDex c
              in Inr \<lparr>shortGame = shortGame c, game = game c, maxDex = maxDex c,
                      generation = lookup numeralLookup genIdx,
                      startId = startId, endId = endId,
                      availableIds = range_lodash startId (endId + 1)\<rparr>))"

fun generations :: "nat list \<Rightarrow> error + generationInfo list" where
  \<comment> \<open>\<open>settings.includedGenerations.map(...)\<close>; an exception in one call ends the whole map\<close>
  "generations [] = Inr []"
| "generations (genIdx # rest) =
     (case expandGeneration genIdx of
        Inl e \<Rightarrow> Inl e
      | Inr g \<Rightarrow> (case generations rest of Inl e \<Rightarrow> Inl e | Inr gs \<Rightarrow> Inr (g # gs)))"

definition firstId :: "nat \<Rightarrow> nat" where
  \<comment> \<open>the lower bound of the range of generation \<open>i\<close> in the spec's words: the upper bound
      of the range before it plus 1, and 1 for the first generation\<close>
  "firstId i = (if i = 0 then 1 else maxDex (gameGenerations ! (i - 1)) + 1)"

definition lastId :: "nat \<Rightarrow> nat" where
  \<comment> \<open>the upper bound of the range of generation \<open>i\<close>\<close>
  "lastId i = maxDex (gameGenerations ! i)"

section \<open>Sampling\<close>

definition baseRandom :: "nat \<Rightarrow> nat \<Rightarrow> nat \<Rightarrow> nat" where
  \<comment> \<open>a number of \<open>lower..upper\<close>, chosen by the draw \<open>r\<close>\<close>
  "baseRandom r lower upper = lower + r mod (upper - lower + 1)"

function shuffleLoop :: "(nat \<Rightarrow> nat) \<Rightarrow> nat \<Rightarrow> nat \<Rightarrow> 'a list \<Rightarrow> 'a list" where
  "shuffleLoop rnd index sz array =
     (if index < sz
      then (let rand = baseRandom (rnd index) index (length array - 1);
                val = array ! rand
            in shuffleLoop rnd (index + 1) sz (array[rand := array ! index, index := val]))
      else array)"
  by pat_completeness auto
termination
  by (relation "measure (\<lambda>(rnd, index, sz, array). sz - index)") auto

declare shuffleLoop.simps [simp del]

definition sampleSize :: "(nat \<Rightarrow> nat) \<Rightarrow> 'a list \<Rightarrow> nat \<Rightarrow> 'a list" where
  \<comment> \<open>\<open>_.sampleSize(collection, n)\<close> of the lodash library on an array, which is
      \<open>shuffleSelf(copyArray(array), baseClamp(n, 0, array.length))\<close>: the request is
      clamped to the length of the array, for each \<open>index\<close> below the clamped request the
      element at \<open>index\<close> is swapped with the one at a random position of
      \<open>index..length - 1\<close> (\<open>shuffleLoop\<close>), and the array is cut to the clamped request.
      The random numbers are the explicit argument \<open>rnd\<close>, one draw for each step, so that
      every outcome of the library is the value of the model for some \<open>rnd\<close>. This is the
      draw without replacement of the spec, underfilled when the pool is too small.\<close>
  "sampleSize rnd collection n =
     (let sz = min n (length collection)
      in take sz (shuffleLoop rnd 0 sz collection))"

section \<open>Records of the API and entities\<close>

record flavorTextEntry =
  flavor_text :: jsString
  language_name :: string

record pokemonSpecies =
  species_id :: nat
  species_name :: string
  flavor_text_entries :: "flavorTextEntry list"

record pokemon =
  pokemon_id :: nat
  pokemon_name :: string
  sprites_front_default :: "string option"

text \<open>
  The entity. Its fields \<open>id\<close> and \<open>name\<close> are \<open>id_p\<close> and \<open>name_p\<close> here. The older
  \<open>App.tsx\<close> creates entities without the field \<open>revealed\<close>; reading it then gives
  \<open>undefined\<close>, which the interface treats as \<open>false\<close>.
\<close>

record PokeData =
  id_p :: nat
  name_p :: string
  flavor :: jsString
  sprite :: "string option"
  revealed :: bool

definition cleanRecord ::
  "(jsString \<Rightarrow> jsString) \<Rightarrow> jsString set \<Rightarrow> pokemonSpecies \<times> pokemon \<Rightarrow> PokeData" where
  \<comment> \<open>the function mapped over \<open>pokemonData\<close>. Its argument is the merge
      \<open>{ ...species, ...pokemon }\<close>, kept as the pair: \<open>id\<close> and \<open>name\<close> are in both records
      and the later spread wins, the flavor texts come from the species, the sprites from
      the pokemon. \<open>_.find\<close> gives the first entry whose language is named \<open>en\<close>, and
      \<open>_.get\<close> falls back to the empty string when there is none.\<close>
  "cleanRecord unicodeLower bannedWordSet s =
     (let flavorTextEntry = find (\<lambda>e. language_name e = ''en'') (flavor_text_entries (fst s));
          text = (case flavorTextEntry of None \<Rightarrow> [] | Some e \<Rightarrow> flavor_text e)
      in \<lparr>id_p = pokemon_id (snd s), name_p = pokemon_name (snd s),
          flavor = redactFlavor unicodeLower bannedWordSet text,
          sprite = sprites_front_default (snd s), revealed = False\<rparr>)"

fun fetchAll ::
  "(nat \<Rightarrow> error + pokemonSpecies) \<Rightarrow> (nat \<Rightarrow> error + pokemon) \<Rightarrow> nat list
     \<Rightarrow> error + (pokemonSpecies \<times> pokemon) list" where
  \<comment> \<open>\<open>Promise.all(ids.map(...))\<close>: the two requests of every id, answered by the two
      functions that stand for the API. One rejection rejects all; the model reports the
      first one in the order of the list.\<close>
  "fetchAll getSpecies getPokemon [] = Inr []"
| "fetchAll getSpecies getPokemon (i # ids) =
     (case getSpecies i of
        Inl e \<Rightarrow> Inl e
      | Inr species \<Rightarrow>
          (case getPokemon i of
             Inl e \<Rightarrow> Inl e
           | Inr pokemon \<Rightarrow>
               (case fetchAll getSpecies getPokemon ids of
                  Inl e \<Rightarrow> Inl e
                | Inr rest \<Rightarrow> Inr ((species, pokemon) # rest))))"

section \<open>Settings and the round generator\<close>

record Settings =
  rounds :: nat
  pokemonPerRound :: nat
  includedGenerations :: "nat list"

definition idPool :: "generationInfo list \<Rightarrow> nat list" where
  \<comment> \<open>\<open>_(gens).flatMap("availableIds")\<close>\<close>
  "idPool gens = concat (map availableIds gens)"

definition sampleIds :: "(nat \<Rightarrow> nat) \<Rightarrow> Settings \<Rightarrow> error + nat list" where
  \<comment> \<open>the first four lines of \<open>fetchGame\<close>\<close>
  "sampleIds rnd settings =
     (case generations (includedGenerations settings) of
        Inl e \<Rightarrow> Inl e
      | Inr gens \<Rightarrow>
          (let total = rounds settings * pokemonPerRound settings
           in Inr (sampleSize rnd (idPool gens) total)))"

definition fetchGame ::
  "(nat \<Rightarrow> nat) \<Rightarrow> (nat \<Rightarrow> error + pokemonSpecies) \<Rightarrow> (nat \<Rightarrow> error + pokemon)
     \<Rightarrow> (jsString \<Rightarrow> jsString) \<Rightarrow> jsString set \<Rightarrow> Settings \<Rightarrow> error + PokeData list" where
  \<comment> \<open>the value passed to \<open>setData\<close>, or the exception that ends the function before\<close>
  "fetchGame rnd getSpecies getPokemon unicodeLower bannedWordSet settings =
     (case sampleIds rnd settings of
        Inl e \<Rightarrow> Inl e
      | Inr ids \<Rightarrow>
          (case fetchAll getSpecies getPokemon ids of
             Inl e \<Rightarrow> Inl e
           | Inr pokemonData \<Rightarrow> Inr (map (cleanRecord unicodeLower bannedWordSet) pokemonData)))"

section \<open>The settings panel\<close>

function toString :: "nat \<Rightarrow> string" where
  \<comment> \<open>the decimal digits of a natural number, its string form below \<open>10^21\<close>\<close>
  "toString n =
     (if n < 10 then [char_of (48 + n)] else toString (n div 10) @ [char_of (48 + n mod 10)])"
  by pat_completeness auto
termination
  by (relation "measure (\<lambda>n. n)") auto

declare toString.simps [simp del]

definition jsSort :: "nat list \<Rightarrow> nat list" where
  \<comment> \<open>\<open>Array.prototype.sort\<close> without a comparator: a stable sort by the elements' string
      forms, compared code unit by code unit\<close>
  "jsSort xs = sort_key toString xs"

definition toggleGeneration :: "Settings \<Rightarrow> nat \<Rightarrow> Settings" where
  "toggleGeneration settings index =
     (let newGens = includedGenerations settings;
          newGens' = (if index \<in> set newGens then filter (\<lambda>i. i \<noteq> index) newGens
                      else newGens @ [index])
      in settings\<lparr>includedGenerations := jsSort newGens'\<rparr>)"

definition checkboxDisabled :: "Settings \<Rightarrow> nat \<Rightarrow> bool" where
  \<comment> \<open>the \<open>disabled\<close> attribute of the checkbox at \<open>index\<close>\<close>
  "checkboxDisabled settings index =
     (length (includedGenerations settings) = 1 \<and> index \<in> set (includedGenerations settings))"

definition clickGeneration :: "Settings \<Rightarrow> nat \<Rightarrow> Settings" where
  \<comment> \<open>a click on the checkbox at \<open>index\<close>: a disabled checkbox sends no change event, an
      enabled one calls \<open>toggleGeneration\<close>\<close>
  "clickGeneration settings index =
     (if checkboxDisabled settings index then settings else toggleGeneration settings index)"

definition initialSettings :: Settings where
  \<comment> \<open>the nine generations of the first state; the older \<open>App.tsx\<close> starts from
      \<open>_.range(0, 8)\<close>, see \<open>initialSettingsApp\<close>\<close>
  "initialSettings =
     \<lparr>rounds = 6, pokemonPerRound = 3, includedGenerations = [0, 1, 2, 3, 4, 5, 6, 7, 8]\<rparr>"

definition initialSettingsApp :: Settings where
  "initialSettingsApp = \<lparr>rounds = 6, pokemonPerRound = 3, includedGenerations = range_lodash 0 8\<rparr>"

inductive reachable :: "Settings \<Rightarrow> bool" where
  \<comment> \<open>the settings the user can bring about: the two sliders run from 1 to 10 and from 1 to
      6, and the panel shows one checkbox for each position of \<open>generations()\<close>, the list
      that has one element for each included generation\<close>
  init: "reachable initialSettings"
| initApp: "reachable initialSettingsApp"
| setRounds: "reachable s \<Longrightarrow> 1 \<le> newRounds \<Longrightarrow> newRounds \<le> 10
    \<Longrightarrow> reachable (s\<lparr>rounds := newRounds\<rparr>)"
| setPokemonPerRound: "reachable s \<Longrightarrow> 1 \<le> n \<Longrightarrow> n \<le> 6
    \<Longrightarrow> reachable (s\<lparr>pokemonPerRound := n\<rparr>)"
| click: "reachable s \<Longrightarrow> index < length (includedGenerations s)
    \<Longrightarrow> reachable (clickGeneration s index)"

definition settingsInvariant :: "Settings \<Rightarrow> bool" where
  \<comment> \<open>what every reachable value of the settings satisfies\<close>
  "settingsInvariant s =
     (includedGenerations s \<noteq> [] \<and> distinct (includedGenerations s)
      \<and> list_all (\<lambda>i. i < length gameGenerations) (includedGenerations s)
      \<and> 1 \<le> rounds s \<and> rounds s \<le> 10 \<and> 1 \<le> pokemonPerRound s \<and> pokemonPerRound s \<le> 6)"

section \<open>Revealing an entity\<close>

fun findIndex :: "('a \<Rightarrow> bool) \<Rightarrow> 'a list \<Rightarrow> nat option" where
  \<comment> \<open>the position of the first element that satisfies the predicate; \<open>None\<close> is the -1 of
      the source\<close>
  "findIndex P [] = None"
| "findIndex P (x # xs) =
     (if P x then Some 0 else (case findIndex P xs of None \<Rightarrow> None | Some i \<Rightarrow> Some (Suc i)))"

definition reveal :: "PokeData list \<Rightarrow> nat \<Rightarrow> PokeData list" where
  \<comment> \<open>the click handler of the button of the entity with id \<open>p_id\<close>: the new value of
      \<open>data\<close>, which stays as it is when no entity is found\<close>
  "reveal data p_id =
     (case findIndex (\<lambda>item. id_p item = p_id) data of
        None \<Rightarrow> data
      | Some index \<Rightarrow> data[index := (data ! index)\<lparr>revealed := True\<rparr>])"

section \<open>Properties of the redaction pipeline\<close>

lemma toLowerCase_lowerLatin1: "toLowerCase lowerLatin1 s = lowerLatin1 s"
  by (simp add: toLowerCase_def)

lemma toLowerCase_latin1: "latin1 s \<Longrightarrow> toLowerCase unicodeLower s = lowerLatin1 s"
  by (simp add: toLowerCase_def)

lemma toLowerLatin1_cases:
  "(((65 \<le> n \<and> n \<le> 90) \<or> (192 \<le> n \<and> n \<le> 222 \<and> n \<noteq> 215)) \<and> toLowerLatin1 n = n + 32)
     \<or> (\<not> ((65 \<le> n \<and> n \<le> 90) \<or> (192 \<le> n \<and> n \<le> 222 \<and> n \<noteq> 215)) \<and> toLowerLatin1 n = n)"
  by (simp add: toLowerLatin1_def)

lemma isWordChar_toLowerLatin1: "isWordChar (toLowerLatin1 n) = isWordChar n"
  using toLowerLatin1_cases[of n] unfolding isWordChar_def by presburger

lemma toLowerLatin1_idem: "toLowerLatin1 (toLowerLatin1 n) = toLowerLatin1 n"
  using toLowerLatin1_cases[of n] toLowerLatin1_cases[of "toLowerLatin1 n"] by presburger

lemma toLowerLatin1_less: "n < 256 \<Longrightarrow> toLowerLatin1 n < 256"
  using toLowerLatin1_cases[of n] by presburger

lemma toLowerLatin1_underscore: "toLowerLatin1 95 = 95"
  by (simp add: toLowerLatin1_def)

lemma isWordChar_underscore: "isWordChar 95"
  by (simp add: isWordChar_def)


lemma lowerLatin1_append: "lowerLatin1 (xs @ ys) = lowerLatin1 xs @ lowerLatin1 ys"
  by (simp add: lowerLatin1_def)

lemma stripNonWord_append: "stripNonWord (xs @ ys) = stripNonWord xs @ stripNonWord ys"
  by (simp add: stripNonWord_def)



lemma lowerLatin1_maskText: "lowerLatin1 maskText = maskText"
  by (simp add: lowerLatin1_def maskText_def toLowerLatin1_underscore)


lemma replaceFirst_prefix: "prefix p s \<Longrightarrow> replaceFirst p r s = r @ drop (length p) s"
  by (cases s) auto


lemma replaceFirst_cases:
  "replaceFirst p r s = s \<or>
   (\<exists>pre post. s = pre @ p @ post \<and> replaceFirst p r s = pre @ r @ post)"
proof (induction s)
  case Nil
  show ?case by auto
next
  case (Cons c cs)
  show ?case
  proof (cases "prefix p (c # cs)")
    case True
    then obtain post where eq: "c # cs = p @ post" by (auto simp: prefix_def)
    have "replaceFirst p r (c # cs) = [] @ r @ post"
      using replaceFirst_prefix[OF True, of r] eq by simp
    moreover have "c # cs = [] @ p @ post" using eq by simp
    ultimately show ?thesis by blast
  next
    case False
    from Cons.IH show ?thesis
    proof
      assume "replaceFirst p r cs = cs"
      then show ?thesis using False by simp
    next
      assume "\<exists>pre post. cs = pre @ p @ post \<and> replaceFirst p r cs = pre @ r @ post"
      then obtain pre post where "cs = pre @ p @ post" "replaceFirst p r cs = pre @ r @ post"
        by blast
      then have "c # cs = (c # pre) @ p @ post \<and> replaceFirst p r (c # cs) = (c # pre) @ r @ post"
        using False by simp
      then show ?thesis by blast
    qed
  qed
qed



lemma replaceFirst_self: "replaceFirst w r w = r"
  using replaceFirst_prefix[of w w r] by simp

lemma substring_Suc:
  assumes "p \<le> q" "q < length S"
  shows "substring S p (Suc q) = substring S p q @ [S ! q]"
proof -
  have "take (Suc (q - p)) (drop p S) = take (q - p) (drop p S) @ [drop p S ! (q - p)]"
    using assms by (simp add: take_Suc_conv_app_nth)
  then show ?thesis using assms by (simp add: substring_def Suc_diff_le)
qed

lemma splitLoop_splitAux:
  "p \<le> q \<Longrightarrow> q \<le> length S \<Longrightarrow> splitLoop S p q = splitAux (substring S p q) (drop q S)"
proof (induction S p q rule: splitLoop.induct)
  case (1 S p q)
  show ?case
  proof (cases "q < length S")
    case False
    then have "q = length S" using "1.prems" by simp
    then show ?thesis by (subst splitLoop.simps) simp
  next
    case True
    then have d: "drop q S = S ! q # drop (Suc q) S" by (simp add: Cons_nth_drop_Suc)
    show ?thesis
    proof (cases "matchAt S q")
      case w: False
      then have wc: "isWordChar (S ! q)" using True by (simp add: matchAt_def)
      have "splitLoop S p q = splitLoop S p (q + 1)"
        using True w by (subst splitLoop.simps) simp
      also have "\<dots> = splitAux (substring S p (q + 1)) (drop (q + 1) S)"
        using "1.IH"(3)[OF True w] "1.prems" True by simp
      also have "\<dots> = splitAux (substring S p q) (drop q S)"
        using wc d substring_Suc[OF "1.prems"(1) True] by simp
      finally show ?thesis .
    next
      case nw: True
      then have nwc: "\<not> isWordChar (S ! q)" by (simp add: matchAt_def)
      show ?thesis
      proof (cases "q = p")
        case e: True
        have "splitLoop S p q = splitLoop S p (q + 1)"
          using True nw e by (subst splitLoop.simps) simp
        also have "\<dots> = splitAux (substring S p (q + 1)) (drop (q + 1) S)"
          using "1.IH"(1)[OF True nw e] "1.prems" True by simp
        also have "\<dots> = splitAux (substring S p q) (drop q S)"
          using nwc d e substring_Suc[OF "1.prems"(1) True] by (simp add: substring_def)
        finally show ?thesis .
      next
        case ne: False
        have cur: "substring S p q \<noteq> []"
          using ne "1.prems" True by (simp add: substring_def)
        have "splitLoop S p q = substring S p q # splitLoop S q q"
          using True nw ne by (subst splitLoop.simps) simp
        also have "splitLoop S q q = splitAux (substring S q q) (drop q S)"
          using "1.IH"(2)[OF True nw ne] "1.prems" by simp
        also have "\<dots> = splitAux [S ! q] (drop (Suc q) S)"
          using d by (simp add: substring_def)
        finally show ?thesis using nwc cur d by simp
      qed
    qed
  qed
qed

lemma split_lodash_splitAux: "split_lodash S = splitAux [] S"
proof (cases "S = []")
  case True
  then show ?thesis by (simp add: split_lodash_def matchAt_def)
next
  case False
  then show ?thesis
    using splitLoop_splitAux[of 0 0 S] by (simp add: split_lodash_def substring_def)
qed

lemma concat_splitAux: "concat (splitAux cur s) = cur @ s"
  by (induction s arbitrary: cur) auto






lemma isWhitespace_newline: "isWhitespace (10)"
  by (simp add: isWhitespace_def)

lemma isWhitespace_space: "isWhitespace (32)"
  by (simp add: isWhitespace_def)

lemma redactFlavor_empty: "[] \<notin> B \<Longrightarrow> redactFlavor lowerLatin1 B [] = []"
  by (simp add: redactFlavor_def split_lodash_splitAux maskToken_def toLowerCase_lowerLatin1 normalizeWhitespace_def
      stripNonWord_def lowerLatin1_def)

lemma splitAux_words:
  "list_all isWordChar w \<Longrightarrow> splitAux cur w = [cur @ w]"
  by (induction w arbitrary: cur) auto

lemma splitAux_pieces:
  "list_all laterPiece ts \<Longrightarrow> list_all isWordChar w \<Longrightarrow> cur @ w \<noteq> []
     \<Longrightarrow> splitAux cur (w @ concat ts) = (cur @ w) # ts"
proof (induction ts arbitrary: cur w)
  case Nil
  then show ?case by (simp add: splitAux_words)
next
  case (Cons c ts)
  have lp: "laterPiece c" and ts: "list_all laterPiece ts" using Cons.prems(1) by simp_all
  from lp obtain h r where c: "c = h # r" and h: "\<not> isWordChar h"
    and r: "list_all isWordChar r"
    by (cases c) (auto simp: laterPiece_def)
  have step: "cur \<noteq> [] \<Longrightarrow> splitAux cur (concat (c # ts)) = cur # c # ts" for cur
    using Cons.IH[OF ts r, of "[h]"] h c by simp
  from Cons.prems(2,3) show ?case
  proof (induction w arbitrary: cur)
    case Nil
    then show ?case using step by simp
  next
    case (Cons x w)
    then have "splitAux (cur @ [x]) (w @ concat (c # ts)) = ((cur @ [x]) @ w) # c # ts"
      by simp
    then show ?case using Cons.prems by simp
  qed
qed

lemma splitAux_resplit:
  assumes "firstPiece f" "list_all laterPiece ts"
  shows "splitAux [] (concat (f # ts)) = f # ts"
proof -
  obtain h r where f: "f = h # r" and r: "list_all isWordChar r"
    using assms(1) by (cases f) (auto simp: firstPiece_def)
  have "splitAux [] (concat (f # ts)) = splitAux [h] (r @ concat ts)" by (simp add: f)
  also have "\<dots> = ([h] @ r) # ts" by (rule splitAux_pieces[OF assms(2) r]) simp
  finally show ?thesis by (simp add: f)
qed

lemma splitAux_structure:
  "list_all isWordChar (tl cur) \<Longrightarrow>
     \<exists>f ts. splitAux cur s = f # ts \<and> list_all laterPiece ts
       \<and> list_all isWordChar (tl f) \<and> (cur @ s \<noteq> [] \<longrightarrow> f \<noteq> [])"
proof (induction s arbitrary: cur)
  case Nil
  then show ?case by simp
next
  case (Cons a s)
  show ?case
  proof (cases "\<not> isWordChar a \<and> cur \<noteq> []")
    case True
    from Cons.IH[of "[a]"] obtain f ts where
      e: "splitAux [a] s = f # ts" and l: "list_all laterPiece ts"
      and w: "list_all isWordChar (tl f)" and n: "f \<noteq> []"
      by auto
    have "f @ concat ts = a # s" using concat_splitAux[of "[a]" s] e by simp
    then have "hd f = a" using n by (cases f) auto
    then have "laterPiece f" using True w n by (simp add: laterPiece_def)
    then have "splitAux cur (a # s) = cur # f # ts \<and> list_all laterPiece (f # ts)"
      using True e l by simp
    then show ?thesis using True Cons.prems by blast
  next
    case False
    have "list_all isWordChar (tl (cur @ [a]))"
      using False Cons.prems by (cases cur) auto
    from Cons.IH[OF this] obtain f ts where
      "splitAux (cur @ [a]) s = f # ts" "list_all laterPiece ts" "list_all isWordChar (tl f)"
      "f \<noteq> []" by auto
    then show ?thesis using False by auto
  qed
qed


lemma isWordChar_not_whitespace: "isWordChar x \<Longrightarrow> \<not> isWhitespace x"
  unfolding isWordChar_def isWhitespace_def by presburger

lemma not_isWordChar_space: "\<not> isWordChar (32)"
  by (simp add: isWordChar_def)

lemma toLowerLatin1_space: "toLowerLatin1 (32) = 32"
  by (simp add: toLowerLatin1_def)

lemma normalizeWhitespace_append:
  "normalizeWhitespace (xs @ ys) = normalizeWhitespace xs @ normalizeWhitespace ys"
  by (simp add: normalizeWhitespace_def)

lemma normalizeWhitespace_concat:
  "normalizeWhitespace (concat xss) = concat (map normalizeWhitespace xss)"
  by (induction xss) (simp_all add: normalizeWhitespace_append, simp add: normalizeWhitespace_def)

lemma normalizeWhitespace_words:
  "list_all isWordChar r \<Longrightarrow> normalizeWhitespace r = r"
  by (induction r) (auto simp: normalizeWhitespace_def isWordChar_not_whitespace)

lemma normalizeWhitespace_idem:
  "normalizeWhitespace (normalizeWhitespace s) = normalizeWhitespace s"
  by (simp add: normalizeWhitespace_def isWhitespace_space)

lemma normalizeWhitespace_nonword:
  "list_all (\<lambda>x. \<not> isWordChar x) pre \<Longrightarrow> list_all (\<lambda>x. \<not> isWordChar x) (normalizeWhitespace pre)"
  by (induction pre) (auto simp: normalizeWhitespace_def not_isWordChar_space)

lemma lowerLatin1_nonword:
  "list_all (\<lambda>x. \<not> isWordChar x) pre \<Longrightarrow> list_all (\<lambda>x. \<not> isWordChar x) (lowerLatin1 pre)"
  by (induction pre) (auto simp: lowerLatin1_def isWordChar_toLowerLatin1)

lemma normalize_lower_normalize:
  "normalizeWhitespace (lowerLatin1 (normalizeWhitespace (lowerLatin1 pre)))
     = normalizeWhitespace (lowerLatin1 pre)"
  by (induction pre)
    (auto simp: normalizeWhitespace_def lowerLatin1_def toLowerLatin1_space toLowerLatin1_idem
      isWhitespace_space)

lemma list_all_isWordChar_maskText: "list_all isWordChar maskText"
  by (simp add: maskText_def isWordChar_underscore list_all_iff)

lemma firstPiece_words: "list_all isWordChar w \<Longrightarrow> w \<noteq> [] \<Longrightarrow> firstPiece w"
  by (cases w) (auto simp: firstPiece_def)

lemma stripNonWord_nonword:
  "list_all (\<lambda>x. \<not> isWordChar x) pre \<Longrightarrow> stripNonWord pre = []"
  by (induction pre) (auto simp: stripNonWord_def)

lemma stripNonWord_words: "list_all isWordChar r \<Longrightarrow> stripNonWord r = r"
  by (induction r) (auto simp: stripNonWord_def)

lemma maskToken_piece:
  assumes pre: "list_all (\<lambda>x. \<not> isWordChar x) pre" and len: "length pre \<le> 1"
    and r: "list_all isWordChar r" and ne: "r \<noteq> []"
  shows "maskToken lowerLatin1 B (pre @ r) =
           (if lowerLatin1 r \<in> B then lowerLatin1 pre @ maskText else pre @ r)"
proof -
  have clean: "lowerLatin1 (stripNonWord (pre @ r)) = lowerLatin1 r"
    by (simp add: stripNonWord_append stripNonWord_nonword[OF pre] stripNonWord_words[OF r])
  have "replaceFirst (lowerLatin1 r) maskText (lowerLatin1 pre @ lowerLatin1 r)
      = lowerLatin1 pre @ maskText"
  proof (cases pre)
    case Nil
    then show ?thesis by (simp add: lowerLatin1_def replaceFirst_self)
  next
    case (Cons h t)
    then have t: "t = []" using len by simp
    obtain y ys where ys: "r = y # ys" using ne by (cases r) auto
    have "isWordChar y" "\<not> isWordChar h" using r pre ys Cons by simp_all
    then have "toLowerLatin1 y \<noteq> toLowerLatin1 h" using isWordChar_toLowerLatin1 by metis
    then have "\<not> prefix (lowerLatin1 r) (toLowerLatin1 h # lowerLatin1 r)"
      using ys by (simp add: lowerLatin1_def)
    then show ?thesis
      using Cons t by (simp add: lowerLatin1_def replaceFirst_self)
  qed
  then show ?thesis
    by (simp add: maskToken_def toLowerCase_lowerLatin1 clean lowerLatin1_append)
qed

lemma redactPiece_piece:
  assumes pre: "list_all (\<lambda>x. \<not> isWordChar x) pre" and len: "length pre \<le> 1"
    and r: "list_all isWordChar r" and ne: "r \<noteq> []"
  shows "redactPiece lowerLatin1 B (pre @ r) =
           (if lowerLatin1 r \<in> B then normalizeWhitespace (lowerLatin1 pre) @ maskText
            else normalizeWhitespace pre @ r)"
  by (simp add: redactPiece_def maskToken_piece[OF assms] normalizeWhitespace_append
      normalizeWhitespace_words[OF r] normalizeWhitespace_words[OF list_all_isWordChar_maskText])

lemma redactPiece_idem_piece:
  assumes pre: "list_all (\<lambda>x. \<not> isWordChar x) pre" and len: "length pre \<le> 1"
    and r: "list_all isWordChar r" and ne: "r \<noteq> []"
  shows "redactPiece lowerLatin1 B (redactPiece lowerLatin1 B (pre @ r)) = redactPiece lowerLatin1 B (pre @ r)"
proof (cases "lowerLatin1 r \<in> B")
  case False
  have "redactPiece lowerLatin1 B (normalizeWhitespace pre @ r) = normalizeWhitespace (normalizeWhitespace pre) @ r"
    using redactPiece_piece[OF normalizeWhitespace_nonword[OF pre] _ r ne, of B] len False
    by (simp add: normalizeWhitespace_def)
  then show ?thesis
    using False by (simp add: redactPiece_piece[OF assms] normalizeWhitespace_idem)
next
  case True
  define pre' where "pre' = normalizeWhitespace (lowerLatin1 pre)"
  have p': "list_all (\<lambda>x. \<not> isWordChar x) pre'" "length pre' \<le> 1"
    using normalizeWhitespace_nonword[OF lowerLatin1_nonword[OF pre]] len
    by (simp_all add: pre'_def normalizeWhitespace_def lowerLatin1_def)
  have m: "maskText \<noteq> []" by (simp add: maskText_def)
  have "redactPiece lowerLatin1 B (pre' @ maskText) = pre' @ maskText"
    using redactPiece_piece[OF p' list_all_isWordChar_maskText m, of B]
    by (simp add: lowerLatin1_maskText pre'_def normalize_lower_normalize normalizeWhitespace_idem)
  then show ?thesis
    using True by (simp add: redactPiece_piece[OF assms] pre'_def)
qed

lemma redactPiece_single:
  "[] \<notin> B \<Longrightarrow> \<not> isWordChar h \<Longrightarrow> redactPiece lowerLatin1 B [h] = normalizeWhitespace [h]"
  by (simp add: redactPiece_def maskToken_def toLowerCase_lowerLatin1 stripNonWord_def lowerLatin1_def)

lemma piece_decompose:
  assumes "firstPiece c"
  shows "\<exists>pre r. c = pre @ r \<and> list_all (\<lambda>x. \<not> isWordChar x) pre \<and> length pre \<le> 1
           \<and> list_all isWordChar r \<and> (r = [] \<longrightarrow> length pre = 1)"
proof -
  obtain h t where c: "c = h # t" and t: "list_all isWordChar t"
    using assms by (cases c) (auto simp: firstPiece_def)
  show ?thesis
  proof (cases "isWordChar h")
    case True
    then have "c = [] @ c \<and> list_all (\<lambda>x. \<not> isWordChar x) [] \<and> length ([]::jsString) \<le> 1
        \<and> list_all isWordChar c \<and> (c = [] \<longrightarrow> length ([]::jsString) = 1)"
      using c t by simp
    then show ?thesis by blast
  next
    case False
    then have "c = [h] @ t \<and> list_all (\<lambda>x. \<not> isWordChar x) [h] \<and> length [h] \<le> 1
        \<and> list_all isWordChar t \<and> (t = [] \<longrightarrow> length [h] = 1)"
      using c t by simp
    then show ?thesis by blast
  qed
qed

lemma redactPiece_props:
  assumes B: "[] \<notin> B" and c: "firstPiece c"
  shows "firstPiece (redactPiece lowerLatin1 B c) \<and> (laterPiece c \<longrightarrow> laterPiece (redactPiece lowerLatin1 B c))
           \<and> redactPiece lowerLatin1 B (redactPiece lowerLatin1 B c) = redactPiece lowerLatin1 B c"
proof -
  from piece_decompose[OF c] obtain pre r where d: "c = pre @ r"
    and pre: "list_all (\<lambda>x. \<not> isWordChar x) pre" and len: "length pre \<le> 1"
    and r: "list_all isWordChar r" and e: "r = [] \<longrightarrow> length pre = 1" by blast
  show ?thesis
  proof (cases "r = []")
    case True
    then obtain h where h: "pre = [h]" using e by (cases pre) auto
    then have nh: "\<not> isWordChar h" using pre by simp
    have res: "redactPiece lowerLatin1 B c = normalizeWhitespace [h]"
      using redactPiece_single[OF B nh] d True h by simp
    have nn: "\<not> isWordChar (hd (normalizeWhitespace [h]))"
      using normalizeWhitespace_nonword[of "[h]"] nh by (simp add: normalizeWhitespace_def)
    then have "redactPiece lowerLatin1 B (normalizeWhitespace [h]) = normalizeWhitespace (normalizeWhitespace [h])"
      using redactPiece_single[OF B, of "hd (normalizeWhitespace [h])"]
      by (simp add: normalizeWhitespace_def split: if_splits)
    then show ?thesis
      using res nn by (simp add: firstPiece_def laterPiece_def normalizeWhitespace_idem,
          simp add: normalizeWhitespace_def)
  next
    case False
    have idem: "redactPiece lowerLatin1 B (redactPiece lowerLatin1 B c) = redactPiece lowerLatin1 B c"
      using redactPiece_idem_piece[OF pre len r False] d by simp
    have form: "redactPiece lowerLatin1 B c =
           (if lowerLatin1 r \<in> B then normalizeWhitespace (lowerLatin1 pre) @ maskText
            else normalizeWhitespace pre @ r)"
      using redactPiece_piece[OF pre len r False] d by simp
    have m: "maskText \<noteq> []" by (simp add: maskText_def)
    show ?thesis
    proof (cases pre)
      case Nil
      then have "redactPiece lowerLatin1 B c = maskText \<or> redactPiece lowerLatin1 B c = r"
        using form by (simp add: normalizeWhitespace_def lowerLatin1_def)
      moreover have "\<not> laterPiece c" using Nil d r False by (cases r) (auto simp: laterPiece_def)
      ultimately show ?thesis
        using idem firstPiece_words[OF r False] firstPiece_words[OF list_all_isWordChar_maskText m]
        by auto
    next
      case (Cons h t)
      then have t: "pre = [h]" using len by simp
      then have nh: "\<not> isWordChar h" using pre by simp
      obtain h' where h': "normalizeWhitespace (lowerLatin1 pre) = [h']" "\<not> isWordChar h'"
        using normalizeWhitespace_nonword[OF lowerLatin1_nonword[OF pre]] t
        by (simp add: normalizeWhitespace_def lowerLatin1_def)
      obtain h'' where h'': "normalizeWhitespace pre = [h'']" "\<not> isWordChar h''"
        using normalizeWhitespace_nonword[OF pre] t
        by (simp add: normalizeWhitespace_def)
      have "redactPiece lowerLatin1 B c = h' # maskText \<or> redactPiece lowerLatin1 B c = h'' # r"
        using form h'(1) h''(1) by simp
      then have "laterPiece (redactPiece lowerLatin1 B c)"
        using h'(2) h''(2) r list_all_isWordChar_maskText by (auto simp: laterPiece_def)
      then show ?thesis using idem by (simp add: laterPiece_def firstPiece_def)
    qed
  qed
qed




lemma laterPiece_firstPiece: "laterPiece c \<Longrightarrow> firstPiece c"
  by (simp add: laterPiece_def firstPiece_def)

lemma redactFlavor_pieces:
  "redactFlavor lowerLatin1 B t = concat (map (redactPiece lowerLatin1 B) (splitAux [] t))"
proof -
  have "redactPiece lowerLatin1 B = (\<lambda>x. normalizeWhitespace (maskToken lowerLatin1 B x))"
    by (rule ext) (simp add: redactPiece_def)
  then show ?thesis
    by (simp add: redactFlavor_def split_lodash_splitAux normalizeWhitespace_concat o_def)
qed

text \<open>
  The whole redaction, run again on a redacted text, changes nothing either, as long as
  the empty string is not a banned word: the pieces of the redacted text are the redacted
  pieces of the text. With the empty string banned, a piece without word characters gets a
  mask in front, which the second run takes for the end of the piece before.
\<close>

lemma redactFlavor_idem:
  assumes B: "[] \<notin> B"
  shows "redactFlavor lowerLatin1 B (redactFlavor lowerLatin1 B t) = redactFlavor lowerLatin1 B t"
proof (cases "t = []")
  case True
  then show ?thesis by (simp add: redactFlavor_empty[OF B])
next
  case False
  from splitAux_structure[of "[]" t] False obtain f ts where
    sp: "splitAux [] t = f # ts" and ts: "list_all laterPiece ts"
    and f: "list_all isWordChar (tl f)" "f \<noteq> []" by auto
  have ff: "firstPiece f" using f by (simp add: firstPiece_def)
  define g where "g = redactPiece lowerLatin1 B"
  have gf: "firstPiece (g f)" "g (g f) = g f"
    using redactPiece_props[OF B ff] by (simp_all add: g_def)
  have gts: "list_all laterPiece (map g ts) \<and> map g (map g ts) = map g ts"
    using ts
  proof (induction ts)
    case Nil
    then show ?case by simp
  next
    case (Cons c ts)
    then have c: "laterPiece c" by simp
    from redactPiece_props[OF B laterPiece_firstPiece[OF c]] c
    have "laterPiece (g c)" "g (g c) = g c" by (simp_all add: g_def)
    then show ?case using Cons by simp
  qed
  have one: "redactFlavor lowerLatin1 B t = concat (g f # map g ts)"
    by (simp add: redactFlavor_pieces sp g_def)
  have "splitAux [] (concat (g f # map g ts)) = g f # map g ts"
    using splitAux_resplit[OF gf(1)] gts by blast
  then have "redactFlavor lowerLatin1 B (concat (g f # map g ts)) = concat (map g (g f # map g ts))"
    by (simp only: redactFlavor_pieces g_def)
  also have "\<dots> = concat (g (g f) # map g (map g ts))" by simp
  also have "\<dots> = concat (g f # map g ts)"
  proof -
    have "map g (map g ts) = map g ts" using gts by blast
    then show ?thesis using gf(2) by (simp only:)
  qed
  finally show ?thesis by (simp only: one)
qed


lemma latin1_append: "latin1 (xs @ ys) = (latin1 xs \<and> latin1 ys)"
  by (simp add: latin1_def)

lemma latin1_subset: "latin1 s \<Longrightarrow> set r \<subseteq> set s \<Longrightarrow> latin1 r"
  by (auto simp: latin1_def list_all_iff)

lemma latin1_lowerLatin1: "latin1 s \<Longrightarrow> latin1 (lowerLatin1 s)"
  by (auto simp: latin1_def lowerLatin1_def list_all_iff toLowerLatin1_less)

lemma latin1_stripNonWord: "latin1 s \<Longrightarrow> latin1 (stripNonWord s)"
  by (rule latin1_subset) (auto simp: stripNonWord_def)

lemma latin1_maskText: "latin1 maskText"
  by (simp add: latin1_def maskText_def list_all_iff)


lemma latin1_replaceFirst:
  assumes "latin1 s" "latin1 rep"
  shows "latin1 (replaceFirst p rep s)"
proof -
  from replaceFirst_cases[of p rep s] show ?thesis
  proof
    assume "replaceFirst p rep s = s"
    then show ?thesis using assms(1) by simp
  next
    assume "\<exists>pre post. s = pre @ p @ post \<and> replaceFirst p rep s = pre @ rep @ post"
    then obtain pre post where "s = pre @ p @ post" "replaceFirst p rep s = pre @ rep @ post"
      by blast
    then show ?thesis using assms by (simp add: latin1_append)
  qed
qed

lemma latin1_piece: "latin1 t \<Longrightarrow> c \<in> set (split_lodash t) \<Longrightarrow> latin1 c"
proof -
  assume t: "latin1 t" and c: "c \<in> set (split_lodash t)"
  have "concat (split_lodash t) = t" by (simp add: split_lodash_splitAux concat_splitAux)
  then have "set c \<subseteq> set t" using c by (metis Sup_upper image_eqI set_concat)
  then show ?thesis using t by (rule latin1_subset[rotated])
qed

lemma maskToken_latin1:
  "latin1 c \<Longrightarrow> maskToken unicodeLower B c = maskToken lowerLatin1 B c"
  by (simp add: maskToken_def Let_def toLowerCase_latin1 toLowerCase_lowerLatin1 latin1_stripNonWord)

lemma latin1_maskToken: "latin1 c \<Longrightarrow> latin1 (maskToken lowerLatin1 B c)"
  by (simp add: maskToken_def toLowerCase_lowerLatin1 Let_def latin1_replaceFirst
      latin1_lowerLatin1 latin1_maskText)

lemma latin1_normalizeWhitespace: "latin1 s \<Longrightarrow> latin1 (normalizeWhitespace s)"
  by (auto simp: latin1_def normalizeWhitespace_def list_all_iff)

lemma latin1_concat: "(\<forall>c\<in>set cs. latin1 c) \<Longrightarrow> latin1 (concat cs)"
  by (induction cs) (simp_all add: latin1_def)

lemma redactFlavor_latin1:
  assumes "latin1 t"
  shows "redactFlavor unicodeLower B t = redactFlavor lowerLatin1 B t"
    and "latin1 (redactFlavor lowerLatin1 B t)"
proof -
  have "map (maskToken unicodeLower B) (split_lodash t) = map (maskToken lowerLatin1 B) (split_lodash t)"
  proof (rule map_cong[OF refl])
    fix c assume "c \<in> set (split_lodash t)"
    then have "latin1 c" by (rule latin1_piece[OF assms])
    then show "maskToken unicodeLower B c = maskToken lowerLatin1 B c"
      by (rule maskToken_latin1)
  qed
  then show "redactFlavor unicodeLower B t = redactFlavor lowerLatin1 B t"
    by (simp only: redactFlavor_def)
  have "\<forall>c\<in>set (map (maskToken lowerLatin1 B) (split_lodash t)). latin1 c"
    using latin1_piece[OF assms] latin1_maskToken by auto
  then show "latin1 (redactFlavor lowerLatin1 B t)"
    unfolding redactFlavor_def by (intro latin1_normalizeWhitespace latin1_concat)
qed

lemma redactFlavor_empty_any: "[] \<notin> B \<Longrightarrow> redactFlavor unicodeLower B [] = []"
  by (simp add: redactFlavor_def split_lodash_splitAux maskToken_def toLowerCase_def latin1_def
      lowerLatin1_def normalizeWhitespace_def stripNonWord_def)

lemma maskText_eq: "maskText = [95, 95, 95, 95]"
  by (simp add: maskText_def eval_nat_numeral)

lemmas evalRedact = redactFlavor_def split_lodash_def splitLoop.simps matchAt_def substring_def
  maskToken_def toLowerCase_def latin1_def lowerLatin1_def kelvinLower_def toLowerLatin1_def
  stripNonWord_def isWordChar_def isWhitespace_def normalizeWhitespace_def maskText_eq units_def
  Let_def

text \<open>
  Claim C4. With the banned word set \<open>{"slowbro"}\<close>, the flavor text \<open>Slowbro is lazy.\<close>
  is redacted to \<open>____ is lazy.\<close>: only the span of the name is masked, the match ignores
  case, and the punctuation that follows stays.
\<close>

theorem C4_slowbro_example:
  "redactFlavor unicodeLower {units ''slowbro''} (units ''Slowbro is lazy.'')
     = units ''____ is lazy.''"
  by (simp add: evalRedact)





text \<open>
  The whole redaction, run again on a redacted text of code units below 256, changes
  nothing either, as long as the empty string is not a banned word: the pieces of the
  redacted text are the redacted pieces of the text. With the empty string banned, a piece
  without word characters gets a mask in front, which the second run takes for the end of
  the piece before.
\<close>

lemma redactFlavor_idem_latin1:
  assumes "latin1 t" "[] \<notin> B"
  shows "redactFlavor unicodeLower B (redactFlavor unicodeLower B t) = redactFlavor unicodeLower B t"
  using redactFlavor_latin1(1)[OF assms(1), of unicodeLower B]
    redactFlavor_latin1(2)[OF assms(1), of B]
    redactFlavor_latin1(1)[of "redactFlavor lowerLatin1 B t" unicodeLower B]
    redactFlavor_idem[OF assms(2), of t]
  by simp

lemma redactFlavor_twice_empty_banned:
  "redactFlavor kelvinLower {[]} (units ''.'') = units ''____.''
     \<and> redactFlavor kelvinLower {[]} (units ''____.'') = units ''________.''"
  by (simp add: evalRedact)




text \<open>
  Claim C6 as stated fails: the replacement works on single characters, so a run of
  whitespace is not collapsed. Two line feeds between two letters become two spaces.
\<close>

theorem C6_counterexample:
  "redactFlavor kelvinLower {} [97, 10, 10, 98] = units ''a  b''
     \<and> hasWhitespaceRun (redactFlavor kelvinLower {} [97, 10, 10, 98])"
  by (simp add: evalRedact)

text \<open>
  Claim C6, amended. After the masked pieces are joined, every whitespace character of the
  result is replaced, one for one, by a space: the redacted text is as long as the joined
  text, it differs from it only where a whitespace character became a space, it has no
  whitespace character other than the space, and no line feed.
\<close>

theorem C6_whitespace_replaced:
  "length (redactFlavor unicodeLower B t)
       = length (concat (map (maskToken unicodeLower B) (split_lodash t)))
     \<and> (\<forall>i < length (redactFlavor unicodeLower B t).
           redactFlavor unicodeLower B t ! i =
             (if isWhitespace (concat (map (maskToken unicodeLower B) (split_lodash t)) ! i) then 32
              else concat (map (maskToken unicodeLower B) (split_lodash t)) ! i))
     \<and> (\<forall>c \<in> set (redactFlavor unicodeLower B t). isWhitespace c \<longrightarrow> c = 32)
     \<and> 10 \<notin> set (redactFlavor unicodeLower B t)"
proof -
  define joined where "joined = concat (map (maskToken unicodeLower B) (split_lodash t))"
  have r: "redactFlavor unicodeLower B t = map (\<lambda>c. if isWhitespace c then 32 else c) joined"
    by (simp add: redactFlavor_def normalizeWhitespace_def joined_def)
  have 1: "length (redactFlavor unicodeLower B t) = length joined" by (simp add: r)
  have 2: "\<forall>i < length (redactFlavor unicodeLower B t).
      redactFlavor unicodeLower B t ! i = (if isWhitespace (joined ! i) then 32 else joined ! i)"
    by (simp add: r)
  have 3: "\<forall>c \<in> set (redactFlavor unicodeLower B t). isWhitespace c \<longrightarrow> c = 32"
    by (auto simp: r)
  have 4: "10 \<notin> set (redactFlavor unicodeLower B t)"
    using 3 isWhitespace_newline by fastforce
  show ?thesis using 1 2 3 4 unfolding joined_def by blast
qed

theorem C6_whitespace_replaced_witness:
  "redactFlavor kelvinLower {} [97, 10, 10, 98] ! 1 = 32
     \<and> 32 \<in> set (redactFlavor kelvinLower {} [97, 10, 10, 98])
     \<and> isWhitespace 32
     \<and> 10 \<notin> set (redactFlavor kelvinLower {} [97, 10, 10, 98])"
proof -
  have e: "redactFlavor kelvinLower {} [97, 10, 10, 98] = [97, 32, 32, 98]"
    by (simp add: evalRedact)
  have m: "32 \<in> set (redactFlavor kelvinLower {} [97, 10, 10, 98])"
    by (simp add: e)
  have i: "redactFlavor kelvinLower {} [97, 10, 10, 98] ! 1 = 32"
    by (simp add: e)
  show ?thesis
    using C6_whitespace_replaced[of kelvinLower "{}" "[97, 10, 10, 98]"]
      m i isWhitespace_space by blast
qed


section \<open>Properties of the generations and of sampling\<close>

lemma length_gameGenerations: "length gameGenerations = 9"
  by (simp add: gameGenerations_def)

lemma maxDex_strict: "sorted_wrt (<) (map maxDex gameGenerations)"
  by (simp add: gameGenerations_def)

lemma maxDex_less:
  assumes "i < j" "j < length gameGenerations"
  shows "maxDex (gameGenerations ! i) < maxDex (gameGenerations ! j)"
proof -
  have "map maxDex gameGenerations ! i < map maxDex gameGenerations ! j"
    using sorted_wrt_nth_less[OF maxDex_strict, of i j] assms by simp
  then show ?thesis using assms by simp
qed

lemma range_lodash_up: "a < b \<Longrightarrow> range_lodash a b = [a..<b]"
  by (simp add: range_lodash_def)

lemma expandGeneration_Inr:
  assumes "genIdx < length gameGenerations"
  shows "expandGeneration genIdx =
     Inr \<lparr>shortGame = shortGame (gameGenerations ! genIdx),
          game = game (gameGenerations ! genIdx),
          maxDex = maxDex (gameGenerations ! genIdx),
          generation = lookup numeralLookup genIdx,
          startId = (if genIdx = 0 then 1 else maxDex (gameGenerations ! (genIdx - 1)) + 1),
          endId = maxDex (gameGenerations ! genIdx),
          availableIds =
            range_lodash (if genIdx = 0 then 1 else maxDex (gameGenerations ! (genIdx - 1)) + 1)
              (maxDex (gameGenerations ! genIdx) + 1)\<rparr>"
proof -
  have "genIdx - 1 < length gameGenerations" using assms by simp
  then show ?thesis
    using assms by (simp add: expandGeneration_def lookup_def Let_def)
qed

lemma startId_le_endId:
  assumes "genIdx < length gameGenerations"
  shows "(if genIdx = 0 then 1 else maxDex (gameGenerations ! (genIdx - 1)) + 1)
           \<le> maxDex (gameGenerations ! genIdx)"
proof (cases "genIdx = 0")
  case True
  have "0 < maxDex (gameGenerations ! 0)" by (simp add: gameGenerations_def)
  then show ?thesis using True by simp
next
  case False
  then have "maxDex (gameGenerations ! (genIdx - 1)) < maxDex (gameGenerations ! genIdx)"
    using maxDex_less[of "genIdx - 1" genIdx] assms by simp
  then show ?thesis using False by simp
qed

lemma expandGeneration_ok:
  assumes "genIdx < length gameGenerations"
  shows "\<exists>g. expandGeneration genIdx = Inr g
           \<and> startId g = (if genIdx = 0 then 1 else maxDex (gameGenerations ! (genIdx - 1)) + 1)
           \<and> endId g = maxDex (gameGenerations ! genIdx)
           \<and> availableIds g = [startId g..<Suc (endId g)]
           \<and> startId g \<le> endId g"
proof -
  define S where "S = (if genIdx = 0 then 1 else maxDex (gameGenerations ! (genIdx - 1)) + 1)"
  define E where "E = maxDex (gameGenerations ! genIdx)"
  have le: "S \<le> E" using startId_le_endId[OF assms] by (simp add: S_def E_def)
  then have r: "range_lodash S (E + 1) = [S..<Suc E]"
    using range_lodash_up[of S "E + 1"] by simp
  show ?thesis
    unfolding expandGeneration_Inr[OF assms] S_def[symmetric] E_def[symmetric]
    using le r by simp
qed

lemma generations_ok:
  assumes "\<forall>i\<in>set included. i < length gameGenerations"
  shows "\<exists>gens. generations included = Inr gens \<and> length gens = length included
           \<and> (\<forall>k < length included. expandGeneration (included ! k) = Inr (gens ! k))"
  using assms
proof (induction included)
  case Nil
  then show ?case by simp
next
  case (Cons a included)
  obtain g where g: "expandGeneration a = Inr g"
    using expandGeneration_ok[of a] Cons.prems by auto
  obtain gens where gens: "generations included = Inr gens" "length gens = length included"
    "\<forall>k < length included. expandGeneration (included ! k) = Inr (gens ! k)"
    using Cons by auto
  have "generations (a # included) = Inr (g # gens)" using g gens by simp
  moreover have "\<forall>k < length (a # included). expandGeneration ((a # included) ! k) = Inr ((g # gens) ! k)"
    using g gens(3) by (auto simp: nth_Cons split: nat.splits)
  ultimately show ?case using gens(2) by auto
qed

text \<open>
  Claim C7. For every included generation index (an index into the table of the nine
  generations), the range expanded for it runs from the \<open>maxDex\<close> of the generation
  before it plus 1, or from 1 for index 0, to its own \<open>maxDex\<close>, and \<open>availableIds\<close>
  lists exactly the ids of that closed interval.
\<close>

theorem C7_generation_ranges:
  assumes "\<forall>i\<in>set (includedGenerations s). i < length gameGenerations"
  shows "\<exists>gens. generations (includedGenerations s) = Inr gens
           \<and> length gens = length (includedGenerations s)
           \<and> (\<forall>k < length gens.
                startId (gens ! k) =
                  (if includedGenerations s ! k = 0 then 1
                   else maxDex (gameGenerations ! (includedGenerations s ! k - 1)) + 1)
                \<and> endId (gens ! k) = maxDex (gameGenerations ! (includedGenerations s ! k))
                \<and> availableIds (gens ! k) = [startId (gens ! k)..<Suc (endId (gens ! k))]
                \<and> set (availableIds (gens ! k)) = {startId (gens ! k)..endId (gens ! k)})"
proof -
  obtain gens where gens: "generations (includedGenerations s) = Inr gens"
    "length gens = length (includedGenerations s)"
    "\<forall>k < length (includedGenerations s). expandGeneration (includedGenerations s ! k) = Inr (gens ! k)"
    using generations_ok[OF assms] by blast
  have "\<forall>k < length gens.
      startId (gens ! k) =
        (if includedGenerations s ! k = 0 then 1
         else maxDex (gameGenerations ! (includedGenerations s ! k - 1)) + 1)
      \<and> endId (gens ! k) = maxDex (gameGenerations ! (includedGenerations s ! k))
      \<and> availableIds (gens ! k) = [startId (gens ! k)..<Suc (endId (gens ! k))]
      \<and> set (availableIds (gens ! k)) = {startId (gens ! k)..endId (gens ! k)}"
  proof (intro allI impI)
    fix k assume k: "k < length gens"
    then have valid: "includedGenerations s ! k < length gameGenerations"
      using assms gens(2) by simp
    have e: "expandGeneration (includedGenerations s ! k) = Inr (gens ! k)"
      using gens k by simp
    from expandGeneration_ok[OF valid] e
    have p: "startId (gens ! k) =
        (if includedGenerations s ! k = 0 then 1
         else maxDex (gameGenerations ! (includedGenerations s ! k - 1)) + 1)"
      "endId (gens ! k) = maxDex (gameGenerations ! (includedGenerations s ! k))"
      "availableIds (gens ! k) = [startId (gens ! k)..<Suc (endId (gens ! k))]"
      by auto
    have "set (availableIds (gens ! k)) = {startId (gens ! k)..endId (gens ! k)}"
      by (simp only: p(3) set_upt atLeastLessThanSuc_atLeastAtMost)
    then show "startId (gens ! k) =
        (if includedGenerations s ! k = 0 then 1
         else maxDex (gameGenerations ! (includedGenerations s ! k - 1)) + 1)
      \<and> endId (gens ! k) = maxDex (gameGenerations ! (includedGenerations s ! k))
      \<and> availableIds (gens ! k) = [startId (gens ! k)..<Suc (endId (gens ! k))]
      \<and> set (availableIds (gens ! k)) = {startId (gens ! k)..endId (gens ! k)}"
      using p by blast
  qed
  then show ?thesis using gens(1,2) by blast
qed

theorem C7_generation_ranges_witness:
  "\<exists>gens. generations [0, 5] = Inr gens \<and> length gens = 2
     \<and> startId (gens ! 0) = 1 \<and> endId (gens ! 0) = 151
     \<and> startId (gens ! 1) = 650 \<and> endId (gens ! 1) = 721
     \<and> availableIds (gens ! 1) = [650..<722]"
proof -
  define s0 where "s0 = \<lparr>rounds = 6, pokemonPerRound = 3, includedGenerations = [0, 5]\<rparr>"
  have inc: "includedGenerations s0 = [0, 5]" by (simp add: s0_def)
  have h: "\<forall>i\<in>set (includedGenerations s0). i < length gameGenerations"
    by (simp add: inc gameGenerations_def)
  have v: "maxDex (gameGenerations ! 0) = 151" "maxDex (gameGenerations ! 4) = 649"
    "maxDex (gameGenerations ! 5) = 721"
    by (simp_all add: gameGenerations_def)
  from C7_generation_ranges[OF h] obtain gens where
    g: "generations (includedGenerations s0) = Inr gens"
      "length gens = length (includedGenerations s0)"
    and r: "\<forall>k < length gens.
                startId (gens ! k) =
                  (if includedGenerations s0 ! k = 0 then 1
                   else maxDex (gameGenerations ! (includedGenerations s0 ! k - 1)) + 1)
                \<and> endId (gens ! k) = maxDex (gameGenerations ! (includedGenerations s0 ! k))
                \<and> availableIds (gens ! k) = [startId (gens ! k)..<Suc (endId (gens ! k))]
                \<and> set (availableIds (gens ! k)) = {startId (gens ! k)..endId (gens ! k)}"
    by blast
  have len: "length gens = 2" using g(2) inc by simp
  have "0 < length gens" using len by simp
  from r[rule_format, OF this]
  have r0: "startId (gens ! 0) = 1 \<and> endId (gens ! 0) = 151"
    using v by (simp add: inc)
  have "1 < length gens" using len by simp
  from r[rule_format, OF this]
  have r1: "startId (gens ! 1) = 650 \<and> endId (gens ! 1) = 721
      \<and> availableIds (gens ! 1) = [650..<722]"
    using v by (simp add: inc del: upt_Suc)
  show ?thesis using g(1) len r0 r1 unfolding inc by blast
qed


lemma baseRandom_range: "lower \<le> upper \<Longrightarrow> lower \<le> baseRandom r lower upper \<and> baseRandom r lower upper \<le> upper"
proof -
  assume le: "lower \<le> upper"
  have "r mod (upper - lower + 1) < upper - lower + 1"
    by (rule mod_less_divisor) simp
  then have "r mod (upper - lower + 1) \<le> upper - lower" by linarith
  then show ?thesis using le unfolding baseRandom_def by linarith
qed

lemma shuffleLoop_props:
  "sz \<le> length array \<Longrightarrow>
     length (shuffleLoop rnd index sz array) = length array
     \<and> set (shuffleLoop rnd index sz array) = set array
     \<and> distinct (shuffleLoop rnd index sz array) = distinct array"
proof (induction rnd index sz array rule: shuffleLoop.induct)
  case (1 rnd index sz array)
  show ?case
  proof (cases "index < sz")
    case False
    then show ?thesis by (subst shuffleLoop.simps, subst shuffleLoop.simps, subst shuffleLoop.simps) simp
  next
    case True
    define rand where "rand = baseRandom (rnd index) index (length array - 1)"
    define array' where "array' = array[rand := array ! index, index := array ! rand]"
    have idx: "index < length array" using True "1.prems" by simp
    then have "index \<le> length array - 1" by simp
    then have "rand \<le> length array - 1" using baseRandom_range[of index "length array - 1"]
      by (simp add: rand_def)
    then have rnd: "rand < length array" using idx by simp
    have len: "length array' = length array" by (simp add: array'_def)
    have st: "set array' = set array" using set_swap[OF rnd idx] by (simp add: array'_def)
    have di: "distinct array' = distinct array" using distinct_swap[OF rnd idx] by (simp add: array'_def)
    have step: "shuffleLoop rnd index sz array = shuffleLoop rnd (index + 1) sz array'"
      using True by (subst shuffleLoop.simps) (simp add: rand_def array'_def Let_def)
    have "sz \<le> length array'" using "1.prems" len by simp
    from "1.IH"[OF True rand_def refl this[unfolded array'_def]]
    have "length (shuffleLoop rnd (index + 1) sz array') = length array'
     \<and> set (shuffleLoop rnd (index + 1) sz array') = set array'
     \<and> distinct (shuffleLoop rnd (index + 1) sz array') = distinct array'"
      by (simp add: array'_def)
    then show ?thesis using step len st di by simp
  qed
qed

lemma length_sampleSize: "length (sampleSize rnd xs n) = min n (length xs)"
  using shuffleLoop_props[of "min n (length xs)" xs rnd 0]
  by (simp add: sampleSize_def Let_def)

lemma set_sampleSize: "set (sampleSize rnd xs n) \<subseteq> set xs"
proof -
  have "set (take (min n (length xs)) (shuffleLoop rnd 0 (min n (length xs)) xs))
      \<subseteq> set (shuffleLoop rnd 0 (min n (length xs)) xs)"
    by (rule set_take_subset)
  then show ?thesis
    using shuffleLoop_props[of "min n (length xs)" xs rnd 0]
    by (simp add: sampleSize_def Let_def)
qed

lemma distinct_sampleSize: "distinct xs \<Longrightarrow> distinct (sampleSize rnd xs n)"
  using shuffleLoop_props[of "min n (length xs)" xs rnd 0]
  by (simp add: sampleSize_def Let_def)

lemma fetchAll_Inr:
  "fetchAll getSpecies getPokemon ids = Inr recs \<Longrightarrow>
     length recs = length ids
     \<and> (\<forall>k < length ids. getSpecies (ids ! k) = Inr (fst (recs ! k))
           \<and> getPokemon (ids ! k) = Inr (snd (recs ! k)))"
proof (induction ids arbitrary: recs)
  case Nil
  then show ?case by simp
next
  case (Cons i ids)
  from Cons.prems obtain sp pk rest where
    sp: "getSpecies i = Inr sp" and pk: "getPokemon i = Inr pk"
    and rest: "fetchAll getSpecies getPokemon ids = Inr rest" and recs: "recs = (sp, pk) # rest"
    by (auto split: sum.splits)
  from Cons.IH[OF rest] have ih: "length rest = length ids"
    "\<forall>k < length ids. getSpecies (ids ! k) = Inr (fst (rest ! k))
           \<and> getPokemon (ids ! k) = Inr (snd (rest ! k))" by auto
  have "\<forall>k < length (i # ids). getSpecies ((i # ids) ! k) = Inr (fst (recs ! k))
           \<and> getPokemon ((i # ids) ! k) = Inr (snd (recs ! k))"
    using sp pk ih(2) recs by (auto simp: nth_Cons split: nat.splits)
  then show ?case using ih(1) recs by simp
qed

lemma fetchAll_succeeds:
  "\<forall>i\<in>set ids. (\<exists>x. getSpecies i = Inr x) \<and> (\<exists>y. getPokemon i = Inr y) \<Longrightarrow>
     \<exists>recs. fetchAll getSpecies getPokemon ids = Inr recs"
  by (induction ids) auto

lemma fetchAll_fails:
  "fetchAll getSpecies getPokemon ids = Inl e \<Longrightarrow>
     \<exists>i\<in>set ids. getSpecies i = Inl e \<or> getPokemon i = Inl e"
  by (induction ids) (auto split: sum.splits)


lemma firstId_le_lastId: "i < length gameGenerations \<Longrightarrow> firstId i \<le> lastId i"
  using startId_le_endId[of i] by (simp add: firstId_def lastId_def)

lemma lastId_less_firstId:
  assumes "i < j" "j < length gameGenerations"
  shows "lastId i < firstId j"
proof (cases "i = j - 1")
  case True
  then show ?thesis using assms by (simp add: firstId_def lastId_def)
next
  case False
  then have "maxDex (gameGenerations ! i) < maxDex (gameGenerations ! (j - 1))"
    using maxDex_less[of i "j - 1"] assms by simp
  then show ?thesis using assms by (simp add: firstId_def lastId_def)
qed

lemma ranges_disjoint:
  assumes "i \<noteq> j" "i < length gameGenerations" "j < length gameGenerations"
  shows "{firstId i..lastId i} \<inter> {firstId j..lastId j} = {}"
proof (cases "i < j")
  case True
  then show ?thesis using lastId_less_firstId[of i j] assms by auto
next
  case False
  then have "j < i" using assms(1) by simp
  then show ?thesis using lastId_less_firstId[of j i] assms by auto
qed

lemma map_availableIds:
  assumes valid: "\<forall>i\<in>set included. i < length gameGenerations"
    and gens: "generations included = Inr gens"
  shows "map availableIds gens = map (\<lambda>i. [firstId i..<Suc (lastId i)]) included"
proof (rule nth_equalityI)
  obtain gens' where g': "generations included = Inr gens'" "length gens' = length included"
    "\<forall>k < length included. expandGeneration (included ! k) = Inr (gens' ! k)"
    using generations_ok[OF valid] by blast
  then have eq: "gens' = gens" using gens by simp
  show "length (map availableIds gens) = length (map (\<lambda>i. [firstId i..<Suc (lastId i)]) included)"
    using g'(2) eq by simp
  fix k assume "k < length (map availableIds gens)"
  then have k: "k < length included" using g'(2) eq by simp
  then have v: "included ! k < length gameGenerations" using valid by simp
  have e: "expandGeneration (included ! k) = Inr (gens ! k)" using g'(3) k eq by simp
  have "availableIds (gens ! k) = [firstId (included ! k)..<Suc (lastId (included ! k))]"
    using expandGeneration_ok[OF v] e by (auto simp: firstId_def lastId_def simp del: upt_Suc)
  then show "map availableIds gens ! k = map (\<lambda>i. [firstId i..<Suc (lastId i)]) included ! k"
    using k g'(2) eq by simp
qed

lemma distinct_ranges:
  "distinct included \<Longrightarrow> \<forall>i\<in>set included. i < length gameGenerations \<Longrightarrow>
     distinct (concat (map (\<lambda>i. [firstId i..<Suc (lastId i)]) included))"
proof (induction included)
  case Nil
  then show ?case by simp
next
  case (Cons a included)
  have "\<forall>j\<in>set included. {firstId a..lastId a} \<inter> {firstId j..lastId j} = {}"
  proof
    fix j assume j: "j \<in> set included"
    then have "a \<noteq> j" "a < length gameGenerations" "j < length gameGenerations"
      using Cons.prems by auto
    then show "{firstId a..lastId a} \<inter> {firstId j..lastId j} = {}"
      by (rule ranges_disjoint)
  qed
  then have "set [firstId a..<Suc (lastId a)]
      \<inter> set (concat (map (\<lambda>i. [firstId i..<Suc (lastId i)]) included)) = {}"
    by (auto simp del: upt_Suc simp: atLeastLessThanSuc_atLeastAtMost)
  then show ?case using Cons by (simp del: upt_Suc)
qed

lemma distinct_idPool:
  assumes "distinct included" "\<forall>i\<in>set included. i < length gameGenerations"
    "generations included = Inr gens"
  shows "distinct (idPool gens)"
  using distinct_ranges[OF assms(1,2)] map_availableIds[OF assms(2,3)]
  by (simp add: idPool_def)

lemma sampleIds_Inr:
  "generations (includedGenerations s) = Inr gens \<Longrightarrow>
     sampleIds rnd s = Inr (sampleSize rnd (idPool gens) (rounds s * pokemonPerRound s))"
  by (simp add: sampleIds_def Let_def)

lemma fetchGame_Inr:
  assumes "fetchGame rnd getSpecies getPokemon unicodeLower B s = Inr data"
  shows "\<exists>ids recs. sampleIds rnd s = Inr ids
           \<and> fetchAll getSpecies getPokemon ids = Inr recs \<and> data = map (cleanRecord unicodeLower B) recs"
  using assms by (auto simp: fetchGame_def split: sum.splits)


lemma set_idPool:
  assumes "\<forall>i\<in>set included. i < length gameGenerations" "generations included = Inr gens"
  shows "set (idPool gens) = (\<Union>i\<in>set included. {firstId i..lastId i})"
proof -
  have "set (idPool gens) = \<Union> (set ` set (map availableIds gens))"
    by (simp add: idPool_def)
  also have "\<dots> = \<Union> (set ` set (map (\<lambda>i. [firstId i..<Suc (lastId i)]) included))"
    by (simp only: map_availableIds[OF assms])
  also have "\<dots> = (\<Union>i\<in>set included. {firstId i..lastId i})"
    by (auto simp del: upt_Suc simp: atLeastLessThanSuc_atLeastAtMost)
  finally show ?thesis .
qed

lemma range_sizes: "\<forall>i\<in>set [0..<9]. 72 \<le> Suc (lastId i) - firstId i"
  by code_simp

lemma pool_large_enough:
  assumes "rounds s \<le> 10" "pokemonPerRound s \<le> 6" "includedGenerations s \<noteq> []"
    and valid: "\<forall>i\<in>set (includedGenerations s). i < length gameGenerations"
    and gens: "generations (includedGenerations s) = Inr gens"
  shows "rounds s * pokemonPerRound s \<le> card (set (idPool gens))"
proof -
  obtain a where a: "a \<in> set (includedGenerations s)" using assms(3) by (cases "includedGenerations s") auto
  then have "a < 9" using valid length_gameGenerations by simp
  then have "72 \<le> Suc (lastId a) - firstId a" using range_sizes by simp
  then have "72 \<le> card {firstId a..lastId a}" by simp
  also have "\<dots> \<le> card (set (idPool gens))"
  proof (rule card_mono)
    show "finite (set (idPool gens))" by simp
    show "{firstId a..lastId a} \<subseteq> set (idPool gens)"
      using a by (auto simp: set_idPool[OF valid gens])
  qed
  finally have "72 \<le> card (set (idPool gens))" .
  moreover have "rounds s * pokemonPerRound s \<le> 10 * 6"
    using assms(1,2) by (rule mult_le_mono)
  ultimately show ?thesis by simp
qed

text \<open>
  Claim C1. Whenever the ids of the ranges of the included generations are at least
  \<open>rounds * pokemonPerRound\<close>, that many ids are sampled, every result of the round
  generator has exactly that many entities, and the generator does return a result when the
  requests for the ids of the pool succeed. By \<open>pool_large_enough\<close> the condition on the
  pool holds for all settings with at most 10 rounds, at most 6 entities in a round and a
  non-empty list of generations.
\<close>

theorem C1_entity_count:
  assumes gens: "generations (includedGenerations s) = Inr gens"
    and pool: "rounds s * pokemonPerRound s \<le> card (set (idPool gens))"
  shows "(\<exists>ids. sampleIds rnd s = Inr ids \<and> length ids = rounds s * pokemonPerRound s)
     \<and> (\<forall>data. fetchGame rnd getSpecies getPokemon unicodeLower B s = Inr data
           \<longrightarrow> length data = rounds s * pokemonPerRound s)
     \<and> ((\<forall>i\<in>set (idPool gens). (\<exists>x. getSpecies i = Inr x) \<and> (\<exists>y. getPokemon i = Inr y))
           \<longrightarrow> (\<exists>data. fetchGame rnd getSpecies getPokemon unicodeLower B s = Inr data
                  \<and> length data = rounds s * pokemonPerRound s))"
proof -
  define total where "total = rounds s * pokemonPerRound s"
  define ids where "ids = sampleSize rnd (idPool gens) total"
  have sample: "sampleIds rnd s = Inr ids"
    using sampleIds_Inr[OF gens] by (simp add: ids_def total_def)
  have "card (set (idPool gens)) \<le> length (idPool gens)" by (rule card_length)
  then have "total \<le> length (idPool gens)" using pool by (simp add: total_def)
  then have len: "length ids = total" by (simp add: ids_def length_sampleSize)
  have sub: "set ids \<subseteq> set (idPool gens)" unfolding ids_def by (rule set_sampleSize)
  have count: "length data = total"
    if "fetchGame rnd getSpecies getPokemon unicodeLower B s = Inr data" for data
  proof -
    from fetchGame_Inr[OF that] sample obtain recs where
      "fetchAll getSpecies getPokemon ids = Inr recs" "data = map (cleanRecord unicodeLower B) recs"
      by auto
    then show ?thesis using fetchAll_Inr[of getSpecies getPokemon ids recs] len by simp
  qed
  have returns: "\<exists>data. fetchGame rnd getSpecies getPokemon unicodeLower B s = Inr data \<and> length data = total"
    if ok: "\<forall>i\<in>set (idPool gens). (\<exists>x. getSpecies i = Inr x) \<and> (\<exists>y. getPokemon i = Inr y)"
  proof -
    have "\<forall>i\<in>set ids. (\<exists>x. getSpecies i = Inr x) \<and> (\<exists>y. getPokemon i = Inr y)"
      using ok sub by blast
    then obtain recs where "fetchAll getSpecies getPokemon ids = Inr recs"
      using fetchAll_succeeds by blast
    then have "fetchGame rnd getSpecies getPokemon unicodeLower B s = Inr (map (cleanRecord unicodeLower B) recs)"
      using sample by (simp add: fetchGame_def)
    then show ?thesis using count by blast
  qed
  show ?thesis using sample len count returns unfolding total_def by blast
qed

theorem C1_entity_count_witness:
  "\<exists>data. fetchGame (\<lambda>i. 7 * i + 3)
       (\<lambda>i. Inr \<lparr>species_id = i, species_name = ''x'', flavor_text_entries = []\<rparr>)
       (\<lambda>i. Inr \<lparr>pokemon_id = i, pokemon_name = ''x'', sprites_front_default = None\<rparr>)
       kelvinLower {units ''slowbro''} initialSettings = Inr data
     \<and> length data = 18"
proof -
  have inc: "includedGenerations initialSettings = [0, 1, 2, 3, 4, 5, 6, 7, 8]"
    and r: "rounds initialSettings = 6" and p: "pokemonPerRound initialSettings = 3"
    by (simp_all add: initialSettings_def)
  have valid: "\<forall>i\<in>set (includedGenerations initialSettings). i < length gameGenerations"
    by (simp add: inc length_gameGenerations)
  obtain gens where gens: "generations (includedGenerations initialSettings) = Inr gens"
    using generations_ok[OF valid] by blast
  have pool: "rounds initialSettings * pokemonPerRound initialSettings \<le> card (set (idPool gens))"
    by (rule pool_large_enough[OF _ _ _ valid gens]) (simp_all add: inc r p)
  have ok: "\<forall>i\<in>set (idPool gens).
      (\<exists>x. (\<lambda>i. Inr \<lparr>species_id = i, species_name = ''x'', flavor_text_entries = []\<rparr> :: error + pokemonSpecies) i = Inr x)
      \<and> (\<exists>y. (\<lambda>i. Inr \<lparr>pokemon_id = i, pokemon_name = ''x'', sprites_front_default = None\<rparr> :: error + pokemon) i = Inr y)"
    by simp
  show ?thesis
    using C1_entity_count[OF gens pool, of "\<lambda>i. 7 * i + 3"
        "\<lambda>i. Inr \<lparr>species_id = i, species_name = ''x'', flavor_text_entries = []\<rparr>"
        "\<lambda>i. Inr \<lparr>pokemon_id = i, pokemon_name = ''x'', sprites_front_default = None\<rparr>"
        kelvinLower "{units ''slowbro''}"] ok
    by (simp add: r p)
qed


lemma id_p_cleanRecord: "id_p (cleanRecord unicodeLower B r) = pokemon_id (snd r)"
  by (simp add: cleanRecord_def Let_def)

text \<open>
  Claim C2. For settings whose included generations are a set (a list without repetition)
  of generation indices, the sampled ids are pairwise distinct and lie in the union of the
  ranges of the included generations; when the API answers a request for an id with the
  record of that id, the entities of a result carry exactly the sampled ids, so no two of
  them share an id.
\<close>

theorem C2_sampled_ids_distinct:
  assumes dist: "distinct (includedGenerations s)"
    and valid: "\<forall>i\<in>set (includedGenerations s). i < length gameGenerations"
  shows "\<exists>ids. sampleIds rnd s = Inr ids \<and> distinct ids
           \<and> set ids \<subseteq> (\<Union>i\<in>set (includedGenerations s). {firstId i..lastId i})
           \<and> ((\<forall>i p. getPokemon i = Inr p \<longrightarrow> pokemon_id p = i) \<longrightarrow>
                (\<forall>data. fetchGame rnd getSpecies getPokemon unicodeLower B s = Inr data \<longrightarrow>
                   map id_p data = ids \<and> distinct (map id_p data)))"
proof -
  obtain gens where gens: "generations (includedGenerations s) = Inr gens"
    using generations_ok[OF valid] by blast
  define ids where "ids = sampleSize rnd (idPool gens) (rounds s * pokemonPerRound s)"
  have sample: "sampleIds rnd s = Inr ids"
    using sampleIds_Inr[OF gens] by (simp add: ids_def)
  have d: "distinct ids"
    unfolding ids_def by (rule distinct_sampleSize[OF distinct_idPool[OF dist valid gens]])
  have sub: "set ids \<subseteq> (\<Union>i\<in>set (includedGenerations s). {firstId i..lastId i})"
    using set_sampleSize[of rnd "idPool gens" "rounds s * pokemonPerRound s"]
    by (simp only: ids_def set_idPool[OF valid gens])
  have ent: "map id_p data = ids \<and> distinct (map id_p data)"
    if api: "\<forall>i p. getPokemon i = Inr p \<longrightarrow> pokemon_id p = i"
      and data: "fetchGame rnd getSpecies getPokemon unicodeLower B s = Inr data" for data
  proof -
    from fetchGame_Inr[OF data] sample obtain recs where
      recs: "fetchAll getSpecies getPokemon ids = Inr recs" "data = map (cleanRecord unicodeLower B) recs"
      by auto
    from fetchAll_Inr[OF recs(1)] have len: "length recs = length ids"
      and each: "\<forall>k < length ids. getPokemon (ids ! k) = Inr (snd (recs ! k))" by auto
    have "map id_p data = ids"
    proof (rule nth_equalityI)
      show "length (map id_p data) = length ids" using recs(2) len by simp
      fix k assume "k < length (map id_p data)"
      then have k: "k < length ids" using recs(2) len by simp
      then have "pokemon_id (snd (recs ! k)) = ids ! k" using each api by blast
      then show "map id_p data ! k = ids ! k"
        using k len recs(2) by (simp add: id_p_cleanRecord)
    qed
    then show ?thesis using d by simp
  qed
  show ?thesis using sample d sub ent by blast
qed

theorem C2_sampled_ids_distinct_witness:
  "\<exists>ids. sampleIds (\<lambda>i. 7 * i + 3) initialSettings = Inr ids \<and> distinct ids
     \<and> (\<exists>data. fetchGame (\<lambda>i. 7 * i + 3)
           (\<lambda>i. Inr \<lparr>species_id = i, species_name = ''x'', flavor_text_entries = []\<rparr>)
           (\<lambda>i. Inr \<lparr>pokemon_id = i, pokemon_name = ''x'', sprites_front_default = None\<rparr>)
           kelvinLower {units ''slowbro''} initialSettings = Inr data
         \<and> map id_p data = ids \<and> distinct (map id_p data))"
proof -
  have inc: "includedGenerations initialSettings = [0, 1, 2, 3, 4, 5, 6, 7, 8]"
    and r: "rounds initialSettings = 6" and p: "pokemonPerRound initialSettings = 3"
    by (simp_all add: initialSettings_def)
  have dist: "distinct (includedGenerations initialSettings)" by (simp add: inc)
  have valid: "\<forall>i\<in>set (includedGenerations initialSettings). i < length gameGenerations"
    by (simp add: inc length_gameGenerations)
  define gS :: "nat \<Rightarrow> error + pokemonSpecies"
    where "gS = (\<lambda>i. Inr \<lparr>species_id = i, species_name = ''x'', flavor_text_entries = []\<rparr>)"
  define gP :: "nat \<Rightarrow> error + pokemon"
    where "gP = (\<lambda>i. Inr \<lparr>pokemon_id = i, pokemon_name = ''x'', sprites_front_default = None\<rparr>)"
  have api: "\<forall>i p. gP i = Inr p \<longrightarrow> pokemon_id p = i" by (auto simp: gP_def)
  obtain gens where gens: "generations (includedGenerations initialSettings) = Inr gens"
    using generations_ok[OF valid] by blast
  obtain ids0 where ids0: "sampleIds (\<lambda>i. 7 * i + 3) initialSettings = Inr ids0"
    using sampleIds_Inr[OF gens] by blast
  then obtain recs where "fetchAll gS gP ids0 = Inr recs"
    using fetchAll_succeeds[of ids0 gS gP] by (auto simp: gS_def gP_def)
  then have ret: "\<exists>data. fetchGame (\<lambda>i. 7 * i + 3) gS gP kelvinLower {units ''slowbro''} initialSettings = Inr data"
    using ids0 by (simp add: fetchGame_def)
  show ?thesis
    using C2_sampled_ids_distinct[OF dist valid, of "\<lambda>i. 7 * i + 3" gP gS kelvinLower "{units ''slowbro''}"] api ret
    unfolding gS_def gP_def by blast
qed

text \<open>
  Claim C10 as stated fails for a banned word set that holds the empty string: the one
  empty piece of the empty text is then banned and replaced by the mask.
\<close>

theorem C10_counterexample:
  "find (\<lambda>e. language_name e = ''en'')
       (flavor_text_entries
          \<lparr>species_id = 80, species_name = ''slowbro'',
             flavor_text_entries = [\<lparr>flavor_text = units ''Flegmon'', language_name = ''fr''\<rparr>]\<rparr>) = None
     \<and> flavor (cleanRecord kelvinLower {[]}
         (\<lparr>species_id = 80, species_name = ''slowbro'',
             flavor_text_entries = [\<lparr>flavor_text = units ''Flegmon'', language_name = ''fr''\<rparr>]\<rparr>,
          \<lparr>pokemon_id = 80, pokemon_name = ''slowbro'', sprites_front_default = None\<rparr>))
       = units ''____''"
  by (simp add: cleanRecord_def evalRedact)

text \<open>
  Claim C10, amended. If a fetched record has no flavor text entry of language \<open>en\<close>, the
  entity made from the record has the redaction of the empty text as its flavor, and that
  is the empty string when the empty string is not a banned word. (The function is total:
  no record makes it fail.)
\<close>

theorem C10_no_english_entry:
  assumes "find (\<lambda>e. language_name e = ''en'') (flavor_text_entries (fst s)) = None"
  shows "flavor (cleanRecord unicodeLower B s) = redactFlavor unicodeLower B []
     \<and> ([] \<notin> B \<longrightarrow> flavor (cleanRecord unicodeLower B s) = [])"
  using assms by (simp add: cleanRecord_def Let_def redactFlavor_empty_any)

theorem C10_no_english_entry_witness:
  "flavor (cleanRecord kelvinLower {units ''slowbro''}
         (\<lparr>species_id = 80, species_name = ''slowbro'',
             flavor_text_entries = [\<lparr>flavor_text = units ''Flegmon'', language_name = ''fr''\<rparr>]\<rparr>,
          \<lparr>pokemon_id = 80, pokemon_name = ''slowbro'', sprites_front_default = None\<rparr>))
       = []"
proof -
  have h: "find (\<lambda>e. language_name e = ''en'')
       (flavor_text_entries (fst
          (\<lparr>species_id = 80, species_name = ''slowbro'',
             flavor_text_entries = [\<lparr>flavor_text = units ''Flegmon'', language_name = ''fr''\<rparr>]\<rparr>,
           \<lparr>pokemon_id = 80, pokemon_name = ''slowbro'', sprites_front_default = None\<rparr>))) = None"
    by simp
  have b: "[] \<notin> {units ''slowbro''}" by (simp add: units_def)
  show ?thesis using C10_no_english_entry[OF h, of kelvinLower "{units ''slowbro''}"] b by blast
qed

section \<open>Properties of the settings panel and of revealing\<close>

lemma set_jsSort: "set (jsSort xs) = set xs"
  by (simp add: jsSort_def)

lemma distinct_jsSort: "distinct (jsSort xs) = distinct xs"
  by (simp add: jsSort_def)

lemma length_jsSort: "length (jsSort xs) = length xs"
  by (simp add: jsSort_def)

lemma includedGenerations_toggle:
  "includedGenerations (toggleGeneration s index) =
     jsSort (if index \<in> set (includedGenerations s)
             then filter (\<lambda>i. i \<noteq> index) (includedGenerations s)
             else includedGenerations s @ [index])"
  by (simp add: toggleGeneration_def Let_def)

lemma rounds_toggle: "rounds (toggleGeneration s index) = rounds s"
  and pokemonPerRound_toggle: "pokemonPerRound (toggleGeneration s index) = pokemonPerRound s"
  by (simp_all add: toggleGeneration_def Let_def)

lemma bounded_distinct_length:
  assumes "distinct xs" "\<forall>i\<in>set xs. i < (n::nat)"
  shows "length xs \<le> n"
proof -
  have "card (set xs) \<le> card {..<n}"
    by (rule card_mono) (use assms(2) in auto)
  then show ?thesis using assms(1) by (simp add: distinct_card)
qed

lemma invariant_click:
  assumes inv: "settingsInvariant s" and idx: "index < length (includedGenerations s)"
  shows "settingsInvariant (clickGeneration s index)"
proof (cases "checkboxDisabled s index")
  case True
  then show ?thesis using inv by (simp add: clickGeneration_def)
next
  case False
  define xs where "xs = includedGenerations s"
  have ne: "xs \<noteq> []" and d: "distinct xs" and b: "\<forall>i\<in>set xs. i < length gameGenerations"
    using inv by (simp_all add: settingsInvariant_def xs_def list_all_iff)
  have click: "clickGeneration s index = toggleGeneration s index"
    using False by (simp add: clickGeneration_def)
  show ?thesis
  proof (cases "index \<in> set xs")
    case True
    then have "length xs \<noteq> 1" using False by (simp add: checkboxDisabled_def xs_def)
    moreover have "0 < length xs" using ne by simp
    ultimately have "2 \<le> length xs" by linarith
    moreover have "length (filter (\<lambda>i. i \<noteq> index) xs) = length xs - 1"
    proof -
      have "card (set xs - {index}) = card (set xs) - 1" using True by simp
      moreover have "set (filter (\<lambda>i. i \<noteq> index) xs) = set xs - {index}" by auto
      moreover have "distinct (filter (\<lambda>i. i \<noteq> index) xs)" using d by simp
      ultimately show ?thesis using d by (metis distinct_card)
    qed
    ultimately have "filter (\<lambda>i. i \<noteq> index) xs \<noteq> []" by auto
    then have "jsSort (filter (\<lambda>i. i \<noteq> index) xs) \<noteq> []"
      using length_jsSort[of "filter (\<lambda>i. i \<noteq> index) xs"] by auto
    then show ?thesis
      using inv True d b unfolding click settingsInvariant_def
      by (simp add: includedGenerations_toggle rounds_toggle pokemonPerRound_toggle
          xs_def[symmetric] distinct_jsSort set_jsSort list_all_iff)
  next
    case False
    have "length xs \<le> length gameGenerations" using bounded_distinct_length[OF d b] .
    then have "index < length gameGenerations" using idx by (simp add: xs_def)
    moreover have "jsSort (xs @ [index]) \<noteq> []"
      using length_jsSort[of "xs @ [index]"] by auto
    ultimately show ?thesis
      using inv False d b unfolding click settingsInvariant_def
      by (simp add: includedGenerations_toggle rounds_toggle pokemonPerRound_toggle
          xs_def[symmetric] distinct_jsSort set_jsSort list_all_iff)
  qed
qed

lemma reachable_invariant: "reachable s \<Longrightarrow> settingsInvariant s"
proof (induction rule: reachable.induct)
  case init
  show ?case
    by (simp add: settingsInvariant_def initialSettings_def length_gameGenerations)
next
  case initApp
  show ?case
    by (simp add: settingsInvariant_def initialSettingsApp_def range_lodash_def
        length_gameGenerations list_all_iff)
next
  case (setRounds s newRounds)
  then show ?case by (simp add: settingsInvariant_def)
next
  case (setPokemonPerRound s n)
  then show ?case by (simp add: settingsInvariant_def)
next
  case (click s index)
  then show ?case using invariant_click by blast
qed

lemma click_only_generation:
  "includedGenerations s = [i] \<Longrightarrow> checkboxDisabled s i \<and> clickGeneration s i = s"
  by (simp add: checkboxDisabled_def clickGeneration_def)

text \<open>
  Claim C8. In every reachable value of the settings at least one generation is included,
  and where exactly one is included its checkbox is disabled, so that a click on it leaves
  the settings unchanged.
\<close>

theorem C8_generations_never_empty:
  assumes "reachable s"
  shows "includedGenerations s \<noteq> []
     \<and> (\<forall>i. includedGenerations s = [i] \<longrightarrow> checkboxDisabled s i \<and> clickGeneration s i = s)"
  using reachable_invariant[OF assms] click_only_generation
  by (simp add: settingsInvariant_def)


theorem C8_generations_never_empty_witness:
  "reachable \<lparr>rounds = 6, pokemonPerRound = 3, includedGenerations = [0]\<rparr>
     \<and> includedGenerations \<lparr>rounds = 6, pokemonPerRound = 3, includedGenerations = [0]\<rparr> \<noteq> []
     \<and> checkboxDisabled \<lparr>rounds = 6, pokemonPerRound = 3, includedGenerations = [0]\<rparr> 0
     \<and> clickGeneration \<lparr>rounds = 6, pokemonPerRound = 3, includedGenerations = [0]\<rparr> 0
         = \<lparr>rounds = 6, pokemonPerRound = 3, includedGenerations = [0]\<rparr>"
proof -
  let ?st = "\<lambda>xs. \<lparr>rounds = 6, pokemonPerRound = 3, includedGenerations = xs\<rparr>"
  have r9: "reachable (?st [0, 1, 2, 3, 4, 5, 6, 7, 8])"
    using reachable.init by (simp add: initialSettings_def)
  have c8: "clickGeneration (?st [0, 1, 2, 3, 4, 5, 6, 7, 8]) 8 = ?st [0, 1, 2, 3, 4, 5, 6, 7]"
    by code_simp
  have r8: "reachable (?st [0, 1, 2, 3, 4, 5, 6, 7])"
    using reachable.click[OF r9, of 8] c8 by simp
  have c7: "clickGeneration (?st [0, 1, 2, 3, 4, 5, 6, 7]) 7 = ?st [0, 1, 2, 3, 4, 5, 6]"
    by code_simp
  have r7: "reachable (?st [0, 1, 2, 3, 4, 5, 6])"
    using reachable.click[OF r8, of 7] c7 by simp
  have c6: "clickGeneration (?st [0, 1, 2, 3, 4, 5, 6]) 6 = ?st [0, 1, 2, 3, 4, 5]"
    by code_simp
  have r6: "reachable (?st [0, 1, 2, 3, 4, 5])"
    using reachable.click[OF r7, of 6] c6 by simp
  have c5: "clickGeneration (?st [0, 1, 2, 3, 4, 5]) 5 = ?st [0, 1, 2, 3, 4]"
    by code_simp
  have r5: "reachable (?st [0, 1, 2, 3, 4])"
    using reachable.click[OF r6, of 5] c5 by simp
  have c4: "clickGeneration (?st [0, 1, 2, 3, 4]) 4 = ?st [0, 1, 2, 3]"
    by code_simp
  have r4: "reachable (?st [0, 1, 2, 3])"
    using reachable.click[OF r5, of 4] c4 by simp
  have c3: "clickGeneration (?st [0, 1, 2, 3]) 3 = ?st [0, 1, 2]"
    by code_simp
  have r3: "reachable (?st [0, 1, 2])"
    using reachable.click[OF r4, of 3] c3 by simp
  have c2: "clickGeneration (?st [0, 1, 2]) 2 = ?st [0, 1]"
    by code_simp
  have r2: "reachable (?st [0, 1])"
    using reachable.click[OF r3, of 2] c2 by simp
  have c1: "clickGeneration (?st [0, 1]) 1 = ?st [0]"
    by code_simp
  have r1: "reachable (?st [0])"
    using reachable.click[OF r2, of 1] c1 by simp
  show ?thesis using C8_generations_never_empty[OF r1] r1 by simp
qed

lemma findIndex_Some:
  "findIndex P xs = Some i \<Longrightarrow> i < length xs \<and> P (xs ! i) \<and> (\<forall>j < i. \<not> P (xs ! j))"
proof (induction xs arbitrary: i)
  case Nil
  then show ?case by simp
next
  case (Cons x xs)
  show ?case
  proof (cases "P x")
    case True
    then show ?thesis using Cons.prems by simp
  next
    case False
    then obtain k where k: "findIndex P xs = Some k" "i = Suc k"
      using Cons.prems by (auto split: option.splits)
    from Cons.IH[OF k(1)] have "k < length xs" "P (xs ! k)" "\<forall>j < k. \<not> P (xs ! j)" by auto
    then show ?thesis using False k(2) by (auto simp: nth_Cons split: nat.splits)
  qed
qed

lemma findIndex_None: "(findIndex P xs = None) = (\<forall>x\<in>set xs. \<not> P x)"
  by (induction xs) (auto split: option.splits)

lemma reveal_absent: "p_id \<notin> id_p ` set data \<Longrightarrow> reveal data p_id = data"
proof -
  assume "p_id \<notin> id_p ` set data"
  then have "findIndex (\<lambda>item. id_p item = p_id) data = None"
    by (auto simp: findIndex_None)
  then show ?thesis by (simp add: reveal_def)
qed

lemma reveal_present:
  assumes "p_id \<in> id_p ` set data"
  shows "\<exists>index. findIndex (\<lambda>item. id_p item = p_id) data = Some index
           \<and> index < length data \<and> id_p (data ! index) = p_id
           \<and> (\<forall>j < index. id_p (data ! j) \<noteq> p_id)
           \<and> reveal data p_id = data[index := (data ! index)\<lparr>revealed := True\<rparr>]"
proof -
  have "findIndex (\<lambda>item. id_p item = p_id) data \<noteq> None"
    using assms by (auto simp: findIndex_None)
  then obtain index where i: "findIndex (\<lambda>item. id_p item = p_id) data = Some index" by auto
  from findIndex_Some[OF i] have "index < length data" "id_p (data ! index) = p_id"
    "\<forall>j < index. id_p (data ! j) \<noteq> p_id" by auto
  moreover have "reveal data p_id = data[index := (data ! index)\<lparr>revealed := True\<rparr>]"
    using i by (simp add: reveal_def)
  ultimately show ?thesis using i by blast
qed

lemma length_reveal: "length (reveal data p_id) = length data"
  by (simp add: reveal_def split: option.splits)

lemma reveal_nth:
  assumes "j < length data"
  shows "reveal data p_id ! j = data ! j \<or> reveal data p_id ! j = (data ! j)\<lparr>revealed := True\<rparr>"
proof (cases "findIndex (\<lambda>item. id_p item = p_id) data")
  case None
  then show ?thesis by (simp add: reveal_def)
next
  case (Some index)
  then show ?thesis using assms by (cases "j = index") (simp_all add: reveal_def)
qed

lemma reveal_keeps_revealed:
  "j < length data \<Longrightarrow> revealed (data ! j) \<Longrightarrow> revealed (reveal data p_id ! j)"
  using reveal_nth[of j data p_id] by auto

lemma reveal_fields:
  "j < length data \<Longrightarrow>
     id_p (reveal data p_id ! j) = id_p (data ! j) \<and> name_p (reveal data p_id ! j) = name_p (data ! j)
     \<and> flavor (reveal data p_id ! j) = flavor (data ! j) \<and> sprite (reveal data p_id ! j) = sprite (data ! j)"
  using reveal_nth[of j data p_id] by auto

lemma foldl_reveal_keeps:
  "j < length data \<Longrightarrow> revealed (data ! j) \<Longrightarrow>
     length (foldl reveal data qs) = length data \<and> revealed (foldl reveal data qs ! j)"
proof (induction qs arbitrary: data)
  case Nil
  then show ?case by simp
next
  case (Cons q qs)
  have "j < length (reveal data q)" "revealed (reveal data q ! j)"
    using Cons.prems by (simp_all add: length_reveal reveal_keeps_revealed)
  from Cons.IH[OF this] show ?case by (simp add: length_reveal)
qed

lemma reveal_idem: "reveal (reveal data p_id) p_id = reveal data p_id"
proof (cases "p_id \<in> id_p ` set data")
  case False
  then show ?thesis by (simp add: reveal_absent)
next
  case True
  from reveal_present[OF True] obtain index where
    i: "index < length data" "id_p (data ! index) = p_id" "\<forall>j < index. id_p (data ! j) \<noteq> p_id"
    and r: "reveal data p_id = data[index := (data ! index)\<lparr>revealed := True\<rparr>]" by blast
  define data' where "data' = reveal data p_id"
  have len: "length data' = length data" by (simp add: data'_def length_reveal)
  have ids: "\<forall>j < length data. id_p (data' ! j) = id_p (data ! j)"
    using reveal_fields by (simp add: data'_def)
  have "p_id \<in> id_p ` set data'"
    using i(1,2) ids len by (metis imageI nth_mem)
  from reveal_present[OF this] obtain index' where
    i': "index' < length data'" "id_p (data' ! index') = p_id"
      "\<forall>j < index'. id_p (data' ! j) \<noteq> p_id"
    and r': "reveal data' p_id = data'[index' := (data' ! index')\<lparr>revealed := True\<rparr>]" by blast
  have "index' = index"
  proof (rule ccontr)
    assume "index' \<noteq> index"
    then consider "index' < index" | "index < index'" by linarith
    then show False
    proof cases
      case 1
      then show ?thesis using i(1,3) i'(2) ids by auto
    next
      case 2
      then show ?thesis using i(1,2) i'(3) ids by auto
    qed
  qed
  then have "reveal data' p_id = data'"
    using r' r i(1) by (simp add: data'_def)
  then show ?thesis by (simp add: data'_def)
qed


text \<open>
  Claim C9. For every list of entities and every id present in it, \<open>reveal\<close> sets the
  \<open>revealed\<close> flag of the entity found for that id, the first one that carries it, and
  leaves every other entity and every other field as they are; with pairwise distinct ids
  an entity is revealed afterwards exactly when it was before or carries the id. Revealing
  twice is revealing once, and no sequence of reveal operations hides an entity again.
\<close>

theorem C9_reveal:
  assumes "p_id \<in> id_p ` set data"
  shows "\<exists>index < length data.
           id_p (data ! index) = p_id \<and> (\<forall>j < index. id_p (data ! j) \<noteq> p_id)
           \<and> reveal data p_id = data[index := (data ! index)\<lparr>revealed := True\<rparr>]
           \<and> length (reveal data p_id) = length data
           \<and> revealed (reveal data p_id ! index)
           \<and> (\<forall>j < length data. j \<noteq> index \<longrightarrow> reveal data p_id ! j = data ! j)
           \<and> (\<forall>j < length data.
                 id_p (reveal data p_id ! j) = id_p (data ! j)
                 \<and> name_p (reveal data p_id ! j) = name_p (data ! j)
                 \<and> flavor (reveal data p_id ! j) = flavor (data ! j)
                 \<and> sprite (reveal data p_id ! j) = sprite (data ! j))
           \<and> (distinct (map id_p data) \<longrightarrow>
                 (\<forall>j < length data.
                    revealed (reveal data p_id ! j) = (revealed (data ! j) \<or> id_p (data ! j) = p_id)))
           \<and> reveal (reveal data p_id) p_id = reveal data p_id
           \<and> (\<forall>qs. \<forall>j < length data. revealed (data ! j) \<longrightarrow>
                 length (foldl reveal data qs) = length data \<and> revealed (foldl reveal data qs ! j))"
proof -
  from reveal_present[OF assms] obtain index where
    i: "index < length data" "id_p (data ! index) = p_id" "\<forall>j < index. id_p (data ! j) \<noteq> p_id"
    and r: "reveal data p_id = data[index := (data ! index)\<lparr>revealed := True\<rparr>]" by blast
  have a: "revealed (reveal data p_id ! index)" using i(1) by (simp add: r)
  have b: "\<forall>j < length data. j \<noteq> index \<longrightarrow> reveal data p_id ! j = data ! j"
    by (simp add: r)
  have c: "\<forall>j < length data.
                 id_p (reveal data p_id ! j) = id_p (data ! j)
                 \<and> name_p (reveal data p_id ! j) = name_p (data ! j)
                 \<and> flavor (reveal data p_id ! j) = flavor (data ! j)
                 \<and> sprite (reveal data p_id ! j) = sprite (data ! j)"
    using reveal_fields by blast
  have d: "\<forall>j < length data.
      revealed (reveal data p_id ! j) = (revealed (data ! j) \<or> id_p (data ! j) = p_id)"
    if dist: "distinct (map id_p data)"
  proof (intro allI impI)
    fix j assume j: "j < length data"
    show "revealed (reveal data p_id ! j) = (revealed (data ! j) \<or> id_p (data ! j) = p_id)"
    proof (cases "j = index")
      case True
      then show ?thesis using a i(2) by simp
    next
      case False
      have "map id_p data ! j \<noteq> map id_p data ! index"
        using nth_eq_iff_index_eq[OF dist, of j index] j i(1) False by simp
      then have "id_p (data ! j) \<noteq> p_id" using j i(1,2) by simp
      then show ?thesis using b j False by simp
    qed
  qed
  have e: "\<forall>qs. \<forall>j < length data. revealed (data ! j) \<longrightarrow>
      length (foldl reveal data qs) = length data \<and> revealed (foldl reveal data qs ! j)"
    using foldl_reveal_keeps by blast
  show ?thesis
    using i r a b c d e length_reveal[of data p_id] reveal_idem[of data p_id] by blast
qed

theorem C9_reveal_witness:
  "80 \<in> id_p ` set
       [\<lparr>id_p = 25, name_p = ''pikachu'', flavor = units ''a'', sprite = None, revealed = False\<rparr>,
        \<lparr>id_p = 80, name_p = ''slowbro'', flavor = units ''b'', sprite = None, revealed = False\<rparr>]
     \<and> reveal
       [\<lparr>id_p = 25, name_p = ''pikachu'', flavor = units ''a'', sprite = None, revealed = False\<rparr>,
        \<lparr>id_p = 80, name_p = ''slowbro'', flavor = units ''b'', sprite = None, revealed = False\<rparr>] 80
       = [\<lparr>id_p = 25, name_p = ''pikachu'', flavor = units ''a'', sprite = None, revealed = False\<rparr>,
          \<lparr>id_p = 80, name_p = ''slowbro'', flavor = units ''b'', sprite = None, revealed = True\<rparr>]
     \<and> reveal (reveal
       [\<lparr>id_p = 25, name_p = ''pikachu'', flavor = units ''a'', sprite = None, revealed = False\<rparr>,
        \<lparr>id_p = 80, name_p = ''slowbro'', flavor = units ''b'', sprite = None, revealed = False\<rparr>] 80) 80
       = [\<lparr>id_p = 25, name_p = ''pikachu'', flavor = units ''a'', sprite = None, revealed = False\<rparr>,
          \<lparr>id_p = 80, name_p = ''slowbro'', flavor = units ''b'', sprite = None, revealed = True\<rparr>]"
proof -
  let ?data = "[\<lparr>id_p = 25, name_p = ''pikachu'', flavor = units ''a'', sprite = None, revealed = False\<rparr>,
        \<lparr>id_p = 80, name_p = ''slowbro'', flavor = units ''b'', sprite = None, revealed = False\<rparr>]"
  have h: "80 \<in> id_p ` set ?data" by simp
  have v: "reveal ?data 80
       = [\<lparr>id_p = 25, name_p = ''pikachu'', flavor = units ''a'', sprite = None, revealed = False\<rparr>,
          \<lparr>id_p = 80, name_p = ''slowbro'', flavor = units ''b'', sprite = None, revealed = True\<rparr>]"
    by (simp add: reveal_def)
  from C9_reveal[OF h] have "reveal (reveal ?data 80) 80 = reveal ?data 80" by blast
  then show ?thesis using h v by simp
qed

end
